theory Spec2Isabelle
  imports Complex_Main "HOL-Library.Sublist"
begin

section \<open>The Sox + faster-whisper streamer (sox\_realtime\_stt\_streamer.py)\<close>

text \<open>
  The streamer records two-second audio chunks with an external recorder, hands each
  chunk to an external transcription process, and writes the recognised text as JSON
  lines to a TCP socket. Everything outside the Python process (the recorder, the
  engine, the peer, the clock) is an input of the model: one \<open>env\<close> record per pass
  of the capture loop says what the outside world did during that pass. The functions
  below follow the methods of \<open>SoxRealtimeSTTStreamer\<close> statement by statement; the only
  statements left out are the \<open>print\<close> calls.
\<close>

subsection \<open>Strings: \<open>str.strip\<close>, \<open>json.dumps\<close>, \<open>str.encode\<close>\<close>

text \<open>
  A Python \<open>str\<close> is the list of its code points; \<open>lit\<close> makes one from ASCII
  characters. \<open>str.strip()\<close> removes from both ends the code points that Python counts
  as white space.
\<close>

type_synonym pystr = "nat list"

definition lit :: "string \<Rightarrow> pystr" where
  "lit s = map of_char s"

definition is_space :: "nat \<Rightarrow> bool" where
  "is_space n =
     ((9 \<le> n \<and> n \<le> 13) \<or> (28 \<le> n \<and> n \<le> 32) \<or> n = 133 \<or> n = 160 \<or> n = 5760 \<or>
      (8192 \<le> n \<and> n \<le> 8202) \<or> n = 8232 \<or> n = 8233 \<or> n = 8239 \<or> n = 8287 \<or> n = 12288)"

definition strip :: "pystr \<Rightarrow> pystr" where
  "strip s = rev (dropWhile is_space (rev (dropWhile is_space s)))"

text \<open>
  \<open>json.dumps\<close> with its default \<open>ensure_ascii=True\<close>: inside a string literal the
  backslash, the double quote and the five short escapes are written with a backslash,
  the other code points from 32 to 126 as they are, every other code point below 65536
  as \<open>\uxxxx\<close>, and a code point from 65536 on as the two \<open>\uxxxx\<close> of its surrogate
  pair.
\<close>

definition hex_digit :: "nat \<Rightarrow> char" where
  "hex_digit d = (if d < 10 then char_of (48 + d) else char_of (87 + d))"

definition hex4 :: "nat \<Rightarrow> string" where
  "hex4 n =
     [hex_digit (n div 4096 mod 16), hex_digit (n div 256 mod 16),
      hex_digit (n div 16 mod 16), hex_digit (n mod 16)]"

definition json_escape_char :: "nat \<Rightarrow> string" where
  "json_escape_char n =
     (if n = 92 then [CHR 0x5C, CHR 0x5C]
      else if n = 34 then [CHR 0x5C, CHR 0x22]
      else if n = 8 then [CHR 0x5C, CHR ''b'']
      else if n = 12 then [CHR 0x5C, CHR ''f'']
      else if n = 10 then [CHR 0x5C, CHR ''n'']
      else if n = 13 then [CHR 0x5C, CHR ''r'']
      else if n = 9 then [CHR 0x5C, CHR ''t'']
      else if 32 \<le> n \<and> n \<le> 126 then [char_of n]
      else if n < 65536 then [CHR 0x5C, CHR ''u''] @ hex4 n
      else (let v = n - 65536
            in [CHR 0x5C, CHR ''u''] @ hex4 (55296 + v div 1024 mod 1024) @
               [CHR 0x5C, CHR ''u''] @ hex4 (56320 + v mod 1024)))"

definition json_string :: "pystr \<Rightarrow> string" where
  "json_string s = [CHR 0x22] @ concat (map json_escape_char s) @ [CHR 0x22]"

text \<open>
  The values that occur in the two messages. A float is written by \<open>float.__repr__\<close>,
  which the model does not define: the rendering function is part of the environment.
\<close>

datatype json = JString pystr | JFloat real | JBool bool

fun json_value :: "(real \<Rightarrow> string) \<Rightarrow> json \<Rightarrow> string" where
  "json_value fr (JString s) = json_string s"
| "json_value fr (JFloat x) = fr x"
| "json_value fr (JBool b) = (if b then ''true'' else ''false'')"

definition json_item :: "(real \<Rightarrow> string) \<Rightarrow> string \<times> json \<Rightarrow> string" where
  "json_item fr kv = json_string (lit (fst kv)) @ '': '' @ json_value fr (snd kv)"

fun join_items :: "string list \<Rightarrow> string" where
  "join_items [] = []"
| "join_items [x] = x"
| "join_items (x # y # ys) = x @ '', '' @ join_items (y # ys)"

text \<open>A \<open>dict\<close> keeps insertion order, so it is an association list.\<close>

definition json_dumps :: "(real \<Rightarrow> string) \<Rightarrow> (string \<times> json) list \<Rightarrow> string" where
  "json_dumps fr d = ''{'' @ join_items (map (json_item fr) d) @ ''}''"

text \<open>
  \<open>str.encode('utf-8')\<close> of the output of \<open>json.dumps\<close>, whose characters are code
  points below 256: one byte below 128, two above.
\<close>

definition encode_utf8_char :: "char \<Rightarrow> char list" where
  "encode_utf8_char c =
     (let n = (of_char c :: nat) in
      if n < 128 then [c] else [char_of (192 + n div 64), char_of (128 + n mod 64)])"

definition encode_utf8 :: "string \<Rightarrow> char list" where
  "encode_utf8 s = concat (map encode_utf8_char s)"

subsection \<open>The streamer object and the outside world\<close>

text \<open>
  A socket object: whether its descriptor is still open (\<open>fileno() \<noteq> -1\<close>) and whether
  \<open>connect\<close> succeeded on it.
\<close>

datatype sock = Sock (fd_open: bool) (connected: bool)

text \<open>
  The temporary directory made by \<open>tempfile.mkdtemp()\<close>: \<open>None\<close> once it has been
  removed, otherwise the files \<open>audio_<n>.wav\<close> in it with their sizes in bytes.
\<close>

type_synonym tempdir = "(int \<times> nat) list option"

record streamer =
  socket :: "sock option"
  running :: bool
  temp_dir :: tempdir
  segment_counter :: int
  last_heartbeat :: real

definition path_exists :: "tempdir \<Rightarrow> int \<Rightarrow> bool" where
  "path_exists d n = (case d of None \<Rightarrow> False | Some fs \<Rightarrow> n \<in> fst ` set fs)"

definition getsize :: "tempdir \<Rightarrow> int \<Rightarrow> nat option" where
  "getsize d n = (case d of None \<Rightarrow> None | Some fs \<Rightarrow> map_of fs n)"

definition unlink :: "tempdir \<Rightarrow> int \<Rightarrow> tempdir" where
  "unlink d n = map_option (filter (\<lambda>kv. fst kv \<noteq> n)) d"

definition write_file :: "tempdir \<Rightarrow> int \<Rightarrow> nat option \<Rightarrow> tempdir" where
  "write_file d n w =
     (case w of None \<Rightarrow> d
      | Some sz \<Rightarrow> map_option (\<lambda>fs. (n, sz) # filter (\<lambda>kv. fst kv \<noteq> n) fs) d)"

definition rmtree :: "tempdir \<Rightarrow> tempdir" where
  "rmtree d = None"

text \<open>
  A child process as \<open>subprocess.run\<close> sees it: it cannot be started, or it runs for
  some seconds and ends with a return code, standard output and standard error.
\<close>

datatype proc = SpawnFails | Proc real int pystr pystr

datatype run_result = Completed int pystr pystr | TimeoutExpired | OtherError

definition subprocess_run :: "real \<Rightarrow> proc \<Rightarrow> run_result" where
  "subprocess_run timeout p =
     (case p of
        SpawnFails \<Rightarrow> OtherError
      | Proc d rc out err \<Rightarrow> if d > timeout then TimeoutExpired else Completed rc out err)"

datatype conn_outcome = ConnOk | ConnRefused | ConnOtherError

datatype event =
    Record int
  | Transcribe int
  | Pkill
  | ConnectAttempt nat conn_outcome
  | SendTranscription "char list" bool
  | SendHeartbeat "char list" bool
  | Unlink int
  | Sleep real

record env =
  sox :: proc
  sox_file :: "nat option"
  engine :: proc
  send_ok :: bool
  timestamp :: real
  now :: real
  hb_ok :: bool
  conn :: "nat \<Rightarrow> conn_outcome"
  float_repr :: "real \<Rightarrow> string"

subsection \<open>\<open>connect_to_nodejs\<close>\<close>

definition max_retries :: nat where
  "max_retries = 5"

definition retry_delay :: real where
  "retry_delay = 2"

datatype 'a outcome = Returned 'a | Raised

text \<open>
  The \<open>for attempt in range(max_retries)\<close> loop. Each pass stores a fresh socket in
  \<open>self.socket\<close> and connects it. Only \<open>ConnectionRefusedError\<close> is caught: the socket
  is closed, the thread sleeps, and the next attempt follows. Any other exception
  leaves the method.
\<close>

fun connect_attempts ::
  "(nat \<Rightarrow> conn_outcome) \<Rightarrow> nat list \<Rightarrow> streamer \<Rightarrow> event list \<times> streamer \<times> bool outcome" where
  "connect_attempts c [] s = ([], s, Returned False)"
| "connect_attempts c (attempt # rest) s =
     (case c attempt of
        ConnOk \<Rightarrow>
          ([ConnectAttempt attempt ConnOk], s\<lparr>socket := Some (Sock True True)\<rparr>, Returned True)
      | ConnRefused \<Rightarrow>
          (case connect_attempts c rest (s\<lparr>socket := Some (Sock False False)\<rparr>) of
             (evs, s', r) \<Rightarrow> (ConnectAttempt attempt ConnRefused # Sleep retry_delay # evs, s', r))
      | ConnOtherError \<Rightarrow>
          ([ConnectAttempt attempt ConnOtherError], s\<lparr>socket := Some (Sock True False)\<rparr>, Raised))"

definition connect_to_nodejs ::
  "(nat \<Rightarrow> conn_outcome) \<Rightarrow> streamer \<Rightarrow> event list \<times> streamer \<times> bool outcome" where
  "connect_to_nodejs c s = connect_attempts c [0..<max_retries] s"

subsection \<open>\<open>send_transcription\<close>\<close>

text \<open>
  \<open>socket.send\<close> raises on a closed or unconnected socket; on a connected one the
  environment says whether the write goes through.
\<close>

definition sock_send :: "sock \<Rightarrow> bool \<Rightarrow> bool" where
  "sock_send sk ok = (fd_open sk \<and> connected sk \<and> ok)"

definition transcription_message :: "pystr \<Rightarrow> real \<Rightarrow> bool \<Rightarrow> (string \<times> json) list" where
  "transcription_message text t is_final =
     [(''type'', JString (lit ''transcription'')), (''text'', JString text),
      (''timestamp'', JFloat t), (''isFinal'', JBool is_final)]"

text \<open>
  Returns the event of the write, if one was tried, and the method's boolean result.
  An exception of \<open>send\<close> is caught inside the method and becomes \<open>False\<close>.
\<close>

definition send_transcription :: "env \<Rightarrow> streamer \<Rightarrow> pystr \<Rightarrow> bool \<Rightarrow> event list \<times> bool" where
  "send_transcription e s text is_final =
     (case socket s of
        None \<Rightarrow> ([], False)
      | Some sk \<Rightarrow>
          (let message = transcription_message text (timestamp e) is_final;
               json_data = json_dumps (float_repr e) message @ [CHR 0x0A];
               ok = sock_send sk (send_ok e)
           in ([SendTranscription (encode_utf8 json_data) ok], ok)))"

subsection \<open>\<open>transcribe_audio_chunk\<close>\<close>

text \<open>
  The script that the method passes to \<open>python3 -c\<close>. It sets \<open>signal.alarm(5)\<close>, loads
  the model, transcribes, joins the stripped segment texts with spaces and prints the
  stripped result. A job says how long the interpreter needs before the alarm is set,
  how long the work after it takes, how long the process needs to leave once the alarm
  has fired, and what the work yields: the segment texts, or the message of an
  exception. The handler's output starts with a clock symbol, which is beyond code
  point 255 and left out here; the parent never reads that output.
\<close>

record whisper_job =
  startup :: real
  work_time :: real
  exit_delay :: real
  yield :: "pystr + pystr list"

definition whisper_script :: "whisper_job \<Rightarrow> proc" where
  "whisper_script j =
     (if work_time j > 5
      then Proc (startup j + 5 + exit_delay j) 1 (lit ''Transcription timeout'' @ [10]) []
      else case yield j of
             Inr segments \<Rightarrow>
               Proc (startup j + work_time j) 0
                 (strip (concat (map (\<lambda>t. strip t @ lit '' '') segments)) @ [10]) []
           | Inl msg \<Rightarrow>
               Proc (startup j + work_time j) 1 [] (lit ''Error: '' @ msg @ [10]))"

text \<open>
  The method itself: the child runs under \<open>timeout=8\<close>; \<open>TimeoutExpired\<close> is followed
  by \<open>pkill -f faster_whisper\<close>; every exception ends in the empty string.
\<close>

definition transcribe_audio_chunk :: "proc \<Rightarrow> int \<Rightarrow> event list \<times> pystr" where
  "transcribe_audio_chunk p audio_file =
     (case subprocess_run 8 p of
        Completed returncode out err \<Rightarrow>
          ([Transcribe audio_file], if returncode = 0 \<and> strip out \<noteq> [] then strip out else [])
      | TimeoutExpired \<Rightarrow> ([Transcribe audio_file, Pkill], [])
      | OtherError \<Rightarrow> ([Transcribe audio_file], []))"

subsection \<open>\<open>record_and_process_audio\<close>\<close>

text \<open>
  The block guarded by \<open>returncode == 0 and os.path.exists(audio_file)\<close>. \<open>None\<close> stands
  for an exception of \<open>os.path.getsize\<close>.
\<close>

definition process_recording :: "env \<Rightarrow> streamer \<Rightarrow> int \<Rightarrow> int \<Rightarrow> event list option" where
  "process_recording e s audio_file returncode =
     (if returncode = 0 \<and> path_exists (temp_dir s) audio_file
      then (case getsize (temp_dir s) audio_file of
              None \<Rightarrow> None
            | Some file_size \<Rightarrow>
                if file_size > 8000
                then (case transcribe_audio_chunk (engine e) audio_file of
                        (evs, transcription) \<Rightarrow>
                          if transcription \<noteq> [] \<and> length (strip transcription) > 2
                          then Some (evs @ fst (send_transcription e s transcription True))
                          else Some evs)
                else Some [])
      else Some [])"

definition heartbeat_message :: "real \<Rightarrow> (string \<times> json) list" where
  "heartbeat_message t = [(''type'', JString (lit ''heartbeat'')), (''timestamp'', JFloat t)]"

text \<open>
  The keepalive block. Its bare \<open>except\<close> swallows every exception, also the
  \<open>AttributeError\<close> of \<open>None.send\<close>.
\<close>

definition heartbeat :: "env \<Rightarrow> streamer \<Rightarrow> event list \<times> streamer" where
  "heartbeat e s =
     (let current_time = now e in
      if current_time - last_heartbeat s > 30
      then (case socket s of
              None \<Rightarrow> ([], s)
            | Some sk \<Rightarrow>
                (let keepalive = heartbeat_message current_time;
                     data = encode_utf8 (json_dumps (float_repr e) keepalive @ [CHR 0x0A]);
                     ok = sock_send sk (hb_ok e)
                 in ([SendHeartbeat data ok],
                     if ok then s\<lparr>last_heartbeat := current_time\<rparr> else s)))
      else ([], s))"

definition cleanup :: "streamer \<Rightarrow> int \<Rightarrow> event list \<times> streamer" where
  "cleanup s audio_file =
     (if path_exists (temp_dir s) audio_file
      then ([Unlink audio_file], s\<lparr>temp_dir := unlink (temp_dir s) audio_file\<rparr>)
      else ([], s))"

datatype raised = NoException | RaisedTimeoutExpired | RaisedException

text \<open>The body of the \<open>try\<close> statement inside the \<open>while\<close> loop.\<close>

definition try_body :: "env \<Rightarrow> streamer \<Rightarrow> event list \<times> streamer \<times> raised" where
  "try_body e s =
     (let audio_file = segment_counter s;
          s1 = s\<lparr>segment_counter := segment_counter s + 1\<rparr>;
          s2 = s1\<lparr>temp_dir := write_file (temp_dir s1) audio_file (sox_file e)\<rparr>
      in case subprocess_run 5 (sox e) of
           TimeoutExpired \<Rightarrow> ([Record audio_file], s2, RaisedTimeoutExpired)
         | OtherError \<Rightarrow> ([Record audio_file], s2, RaisedException)
         | Completed returncode out err \<Rightarrow>
             (case process_recording e s2 audio_file returncode of
                None \<Rightarrow> ([Record audio_file], s2, RaisedException)
              | Some evs \<Rightarrow>
                  (case heartbeat e s2 of
                     (evs_h, s3) \<Rightarrow>
                       (case cleanup s3 audio_file of
                          (evs_c, s4) \<Rightarrow>
                            (Record audio_file # evs @ evs_h @ evs_c @ [Sleep 0.2], s4,
                             NoException)))))"

datatype status = Continue | Exited | ThreadDied

definition needs_reconnect :: "streamer \<Rightarrow> bool" where
  "needs_reconnect s = (case socket s of None \<Rightarrow> True | Some sk \<Rightarrow> \<not> fd_open sk)"

text \<open>
  One pass of the \<open>while\<close> loop: the \<open>try\<close> body and the two handlers. An exception
  of \<open>connect_to_nodejs\<close> inside the second handler is caught by nobody and ends the
  recording thread.
\<close>

definition loop_body :: "env \<Rightarrow> streamer \<Rightarrow> event list \<times> streamer \<times> status" where
  "loop_body e s =
     (let audio_file = segment_counter s in
      case try_body e s of
        (evs, s1, NoException) \<Rightarrow> (evs, s1, Continue)
      | (evs, s1, RaisedTimeoutExpired) \<Rightarrow>
          (case cleanup s1 audio_file of (evs_c, s2) \<Rightarrow> (evs @ evs_c, s2, Continue))
      | (evs, s1, RaisedException) \<Rightarrow>
          (case cleanup s1 audio_file of
             (evs_c, s2) \<Rightarrow>
               if needs_reconnect s2
               then (case connect_to_nodejs (conn e) s2 of
                       (evs_k, s3, Returned b) \<Rightarrow> (evs @ evs_c @ evs_k @ [Sleep 2], s3, Continue)
                     | (evs_k, s3, Raised) \<Rightarrow> (evs @ evs_c @ evs_k, s3, ThreadDied))
               else (evs @ evs_c @ [Sleep 2], s2, Continue)))"

text \<open>
  The \<open>while self.running\<close> loop, one environment per pass; every event carries the
  number of the segment whose pass produced it.
\<close>

fun run_loop :: "env list \<Rightarrow> streamer \<Rightarrow> (int \<times> event) list \<times> streamer \<times> status" where
  "run_loop [] s = ([], s, Continue)"
| "run_loop (e # es) s =
     (if \<not> running s then ([], s, Exited)
      else case loop_body e s of
             (evs, s1, ThreadDied) \<Rightarrow> (map (Pair (segment_counter s)) evs, s1, ThreadDied)
           | (evs, s1, st) \<Rightarrow>
               (case run_loop es s1 of
                  (evs', s2, st') \<Rightarrow> (map (Pair (segment_counter s)) evs @ evs', s2, st')))"

subsection \<open>\<open>start_streaming\<close> and \<open>main\<close>\<close>

definition close_socket :: "streamer \<Rightarrow> streamer" where
  "close_socket s =
     (case socket s of None \<Rightarrow> s | Some sk \<Rightarrow> s\<lparr>socket := Some (Sock False False)\<rparr>)"

definition probe_ok :: "real \<Rightarrow> proc \<Rightarrow> bool" where
  "probe_ok timeout p =
     (case subprocess_run timeout p of Completed rc out err \<Rightarrow> rc = 0 | _ \<Rightarrow> False)"

text \<open>
  The two probes, then the recording thread. The main thread only sleeps until the
  interrupt; the model lets the recording thread make the passes of \<open>es\<close> first and
  then runs the \<open>except KeyboardInterrupt\<close> and \<open>finally\<close> blocks. The boolean says
  whether the thread was started.
\<close>

definition start_streaming ::
  "proc \<Rightarrow> proc \<Rightarrow> env list \<Rightarrow> streamer \<Rightarrow> (int \<times> event) list \<times> streamer \<times> bool" where
  "start_streaming sox_test whisper_test es s =
     (if \<not> probe_ok 5 sox_test then ([], s, False)
      else if \<not> probe_ok 10 whisper_test then ([], s, False)
      else (case run_loop es (s\<lparr>running := True\<rparr>) of
              (evs, s1, st) \<Rightarrow>
                (let s2 = s1\<lparr>running := False\<rparr>;
                     s3 = close_socket s2;
                     s4 = (if temp_dir s3 \<noteq> None then s3\<lparr>temp_dir := rmtree (temp_dir s3)\<rparr>
                           else s3)
                 in (evs, s4, True))))"

definition init :: "real \<Rightarrow> streamer" where
  "init t0 = \<lparr>socket = None, running = False, temp_dir = Some [], segment_counter = 0,
              last_heartbeat = t0\<rparr>"

datatype main_exit = ConnectFailed | ConnectRaised | Streamed bool

definition main ::
  "real \<Rightarrow> (nat \<Rightarrow> conn_outcome) \<Rightarrow> proc \<Rightarrow> proc \<Rightarrow> env list \<Rightarrow>
   event list \<times> (int \<times> event) list \<times> streamer \<times> main_exit" where
  "main t0 c sox_test whisper_test es =
     (case connect_to_nodejs c (init t0) of
        (evs_k, s, Returned False) \<Rightarrow> (evs_k, [], s, ConnectFailed)
      | (evs_k, s, Raised) \<Rightarrow> (evs_k, [], s, ConnectRaised)
      | (evs_k, s, Returned True) \<Rightarrow>
          (case start_streaming sox_test whisper_test es s of
             (evs, s1, started) \<Rightarrow> (evs_k, evs, s1, Streamed started)))"

subsection \<open>Reading a trace\<close>

fun is_record :: "event \<Rightarrow> bool" where
  "is_record (Record n) = True"
| "is_record _ = False"

fun is_transcribe :: "event \<Rightarrow> bool" where
  "is_transcribe (Transcribe n) = True"
| "is_transcribe _ = False"

fun is_transcription_send :: "event \<Rightarrow> bool" where
  "is_transcription_send (SendTranscription p ok) = True"
| "is_transcription_send _ = False"

fun is_heartbeat_send :: "event \<Rightarrow> bool" where
  "is_heartbeat_send (SendHeartbeat p ok) = True"
| "is_heartbeat_send _ = False"

fun is_connect :: "event \<Rightarrow> bool" where
  "is_connect (ConnectAttempt i r) = True"
| "is_connect _ = False"

text \<open>The events of the transcribe-and-send block.\<close>

fun in_chunk :: "event \<Rightarrow> bool" where
  "in_chunk (Transcribe n) = True"
| "in_chunk Pkill = True"
| "in_chunk (SendTranscription p ok) = True"
| "in_chunk _ = False"

text \<open>The streamer right after the recorder has run: counter advanced, file written.\<close>

definition after_sox :: "env \<Rightarrow> streamer \<Rightarrow> streamer" where
  "after_sox e s =
     s\<lparr>segment_counter := segment_counter s + 1,
       temp_dir := write_file (temp_dir s) (segment_counter s) (sox_file e)\<rparr>"

text \<open>The byte size of the segment that the pass captured, if there is a file.\<close>

definition captured_size :: "env \<Rightarrow> streamer \<Rightarrow> nat option" where
  "captured_size e s = getsize (temp_dir (after_sox e s)) (segment_counter s)"

definition chunk_events :: "env \<Rightarrow> streamer \<Rightarrow> event list" where
  "chunk_events e s =
     (case subprocess_run 5 (sox e) of
        Completed rc out err \<Rightarrow>
          (case process_recording e (after_sox e s) (segment_counter s) rc of
             Some evs \<Rightarrow> evs | None \<Rightarrow> [])
      | _ \<Rightarrow> [])"

text \<open>The text that \<open>transcribe_audio_chunk\<close> returns when the pass calls it.\<close>

definition transcription_of :: "env \<Rightarrow> streamer \<Rightarrow> pystr" where
  "transcription_of e s = snd (transcribe_audio_chunk (engine e) (segment_counter s))"

text \<open>
  What the retry loop is expected to leave in the trace: every refused attempt followed
  by a two-second sleep, then the first attempt that is not refused, if there is one.
\<close>

definition retry_schedule :: "(nat \<Rightarrow> conn_outcome) \<Rightarrow> nat list \<Rightarrow> event list" where
  "retry_schedule c xs =
     concat (map (\<lambda>i. [ConnectAttempt i ConnRefused, Sleep 2])
               (takeWhile (\<lambda>i. c i = ConnRefused) xs)) @
     (case dropWhile (\<lambda>i. c i = ConnRefused) xs of
        [] \<Rightarrow> []
      | i # rest \<Rightarrow> [ConnectAttempt i (c i)])"

text \<open>
  The audio file that an event works on, and the passes of a run read off its trace:
  the segments recorded and the segments whose transcription was written to the socket,
  each in trace order.
\<close>

fun file_of :: "event \<Rightarrow> int option" where
  "file_of (Record n) = Some n"
| "file_of (Transcribe n) = Some n"
| "file_of (Unlink n) = Some n"
| "file_of _ = None"

definition touches :: "int \<Rightarrow> event \<Rightarrow> bool" where
  "touches n ev = (case file_of ev of None \<Rightarrow> True | Some k \<Rightarrow> k = n)"

definition own_file :: "int \<times> event \<Rightarrow> bool" where
  "own_file x = (case file_of (snd x) of None \<Rightarrow> True | Some k \<Rightarrow> k = fst x)"

definition captures :: "(int \<times> event) list \<Rightarrow> int list" where
  "captures tr = map fst (filter (\<lambda>x. is_record (snd x)) tr)"

definition deliveries :: "(int \<times> event) list \<Rightarrow> int list" where
  "deliveries tr = map fst (filter (\<lambda>x. is_transcription_send (snd x)) tr)"

definition pass_events :: "env \<Rightarrow> streamer \<Rightarrow> (int \<times> event) list" where
  "pass_events e s = map (Pair (segment_counter s)) (fst (loop_body e s))"

text \<open>
  The segments in flight: the audio files that exist in the temporary directory, that
  is, captured and not yet released. And the states that a pass goes through, as far
  as the directory is concerned: before the recorder runs, after it, after the
  keepalive block, after the clean-up of a handler, and at the end of the pass.
\<close>

definition in_flight :: "streamer \<Rightarrow> int list" where
  "in_flight s = (case temp_dir s of None \<Rightarrow> [] | Some fs \<Rightarrow> map fst fs)"

definition pass_states :: "env \<Rightarrow> streamer \<Rightarrow> streamer list" where
  "pass_states e s =
     [s, after_sox e s, snd (heartbeat e (after_sox e s)),
      snd (cleanup (after_sox e s) (segment_counter s)), fst (snd (loop_body e s))]"

fun is_failed_heartbeat :: "event \<Rightarrow> bool" where
  "is_failed_heartbeat (SendHeartbeat p ok) = (\<not> ok)"
| "is_failed_heartbeat _ = False"

fun is_sent_heartbeat :: "event \<Rightarrow> bool" where
  "is_sent_heartbeat (SendHeartbeat p ok) = ok"
| "is_sent_heartbeat _ = False"

text \<open>
  Heartbeat writes by outcome; a trace without its heartbeat events; two streamers
  that differ at most in the last-heartbeat time; two environments that differ at most
  in whether the heartbeat write succeeds; a pass whose recorder run returns.
\<close>

definition other_events :: "event list \<Rightarrow> event list" where
  "other_events evs = filter (\<lambda>ev. \<not> is_heartbeat_send ev) evs"

definition same_but_heartbeat :: "streamer \<Rightarrow> streamer \<Rightarrow> bool" where
  "same_but_heartbeat s s' =
     (socket s' = socket s \<and> running s' = running s \<and> temp_dir s' = temp_dir s \<and>
      segment_counter s' = segment_counter s)"

definition same_but_hb_ok :: "env \<Rightarrow> env \<Rightarrow> bool" where
  "same_but_hb_ok e e' = (e'\<lparr>hb_ok := hb_ok e\<rparr> = e)"

definition recorder_returns :: "env \<Rightarrow> bool" where
  "recorder_returns e =
     (case subprocess_run 5 (sox e) of Completed rc out err \<Rightarrow> True | _ \<Rightarrow> False)"

definition other_tagged :: "(int \<times> event) list \<Rightarrow> (int \<times> event) list" where
  "other_tagged tr = filter (\<lambda>x. \<not> is_heartbeat_send (snd x)) tr"

definition heartbeats :: "(int \<times> event) list \<Rightarrow> int list" where
  "heartbeats tr = map fst (filter (\<lambda>x. is_heartbeat_send (snd x)) tr)"

definition all_heartbeats_fail :: "env list \<Rightarrow> env list" where
  "all_heartbeats_fail es = map (\<lambda>e. e\<lparr>hb_ok := False\<rparr>) es"

text \<open>
  The bytes of a transcription message on the wire, and the printable ASCII range.
\<close>

definition transcription_line :: "(real \<Rightarrow> string) \<Rightarrow> pystr \<Rightarrow> real \<Rightarrow> bool \<Rightarrow> char list" where
  "transcription_line fr text t is_final =
     encode_utf8 (json_dumps fr (transcription_message text t is_final) @ [CHR 0x0A])"

definition printable :: "char \<Rightarrow> bool" where
  "printable c = (32 \<le> (of_char c :: nat) \<and> (of_char c :: nat) \<le> 126)"

text \<open>
  The two failures of the transcription that the caller cannot tell from silence: the
  child ran into the timeout of \<open>subprocess.run\<close>, or it ended with a return code
  other than 0.
\<close>

definition engine_fails :: "proc \<Rightarrow> bool" where
  "engine_fails p =
     (case subprocess_run 8 p of
        Completed rc out err \<Rightarrow> rc \<noteq> 0
      | TimeoutExpired \<Rightarrow> True
      | OtherError \<Rightarrow> False)"

subsection \<open>Reading a transcription line\<close>

text \<open>
  A Python \<open>str\<close> is a sequence of code points. \<open>json.dumps\<close> writes a code point
  above the basic plane as the two UTF-16 units of its surrogate pair; a decoded
  \<open>str\<close> holds Unicode scalar values only, that is no lone surrogate.
\<close>

definition utf16 :: "nat \<Rightarrow> nat list" where
  "utf16 n =
     (if n < 65536 then [n]
      else [55296 + (n - 65536) div 1024 mod 1024, 56320 + (n - 65536) mod 1024])"

definition scalar :: "nat \<Rightarrow> bool" where
  "scalar n = (n < 1114112 \<and> \<not> (55296 \<le> n \<and> n < 57344))"

text \<open>
  The reader of a JSON string (RFC 8259, section 7): after the opening quote, unescaped
  characters, the two-character escapes and the escape of four hexadecimal
  digits, up to the closing quote; the units read are then joined, a high surrogate
  followed by a low one giving the code point of the pair.
\<close>

definition unhex :: "char \<Rightarrow> nat option" where
  "unhex c =
     (let n = (of_char c :: nat) in
      if 48 \<le> n \<and> n \<le> 57 then Some (n - 48)
      else if 97 \<le> n \<and> n \<le> 102 then Some (n - 87)
      else if 65 \<le> n \<and> n \<le> 70 then Some (n - 55)
      else None)"

definition unescape :: "char \<Rightarrow> nat option" where
  "unescape c =
     (if c = CHR 0x22 then Some 34 else if c = CHR 0x5C then Some 92
      else if c = CHR ''/'' then Some 47 else if c = CHR ''b'' then Some 8
      else if c = CHR ''f'' then Some 12 else if c = CHR ''n'' then Some 10
      else if c = CHR ''r'' then Some 13 else if c = CHR ''t'' then Some 9
      else None)"

fun read_units :: "string \<Rightarrow> (nat list \<times> string) option" where
  "read_units [] = None"
| "read_units (c # cs) =
     (if c = CHR 0x22 then Some ([], cs)
      else if c = CHR 0x5C then
        (case cs of
           [] \<Rightarrow> None
         | e # cs1 \<Rightarrow>
             if e = CHR ''u'' then
               (case cs1 of
                  h1 # h2 # h3 # h4 # cs2 \<Rightarrow>
                    (case (unhex h1, unhex h2, unhex h3, unhex h4) of
                       (Some d1, Some d2, Some d3, Some d4) \<Rightarrow>
                         map_option (apfst ((#) (4096 * d1 + 256 * d2 + 16 * d3 + d4)))
                           (read_units cs2)
                     | _ \<Rightarrow> None)
                | _ \<Rightarrow> None)
             else (case unescape e of
                     None \<Rightarrow> None
                   | Some u \<Rightarrow> map_option (apfst ((#) u)) (read_units cs1)))
      else if 32 \<le> (of_char c :: nat) \<and> (of_char c :: nat) \<le> 126
      then map_option (apfst ((#) (of_char c))) (read_units cs)
      else None)"

fun combine_surrogates :: "nat list \<Rightarrow> nat list" where
  "combine_surrogates (u # v # us) =
     (if 55296 \<le> u \<and> u < 56320 \<and> 56320 \<le> v \<and> v < 57344
      then (65536 + (u - 55296) * 1024 + (v - 56320)) # combine_surrogates us
      else u # combine_surrogates (v # us))"
| "combine_surrogates us = us"

definition read_str :: "string \<Rightarrow> (pystr \<times> string) option" where
  "read_str s =
     (case s of
        [] \<Rightarrow> None
      | c # cs \<Rightarrow>
          if c = CHR 0x22 then map_option (apfst combine_surrogates) (read_units cs) else None)"

text \<open>
  The grammar of a JSON number (RFC 8259, section 6): an optional minus, an integer part
  without a leading zero, an optional fraction and an optional exponent. The reader
  takes the longest run of number characters and accepts it when it is a number.
\<close>

definition is_digit :: "char \<Rightarrow> bool" where
  "is_digit c = (48 \<le> (of_char c :: nat) \<and> (of_char c :: nat) \<le> 57)"

definition number_char :: "char \<Rightarrow> bool" where
  "number_char c =
     (is_digit c \<or> c = CHR ''-'' \<or> c = CHR ''+'' \<or> c = CHR ''.'' \<or> c = CHR ''e'' \<or> c = CHR ''E'')"

definition json_int :: "string \<Rightarrow> bool" where
  "json_int ds = (case ds of [] \<Rightarrow> False | d # r \<Rightarrow> r = [] \<or> d \<noteq> CHR ''0'')"

definition json_exp :: "string \<Rightarrow> bool" where
  "json_exp s =
     (case s of
        [] \<Rightarrow> True
      | c # cs \<Rightarrow>
          (c = CHR ''e'' \<or> c = CHR ''E'') \<and>
          (let ds = (case cs of [] \<Rightarrow> [] | d # r \<Rightarrow> if d = CHR ''+'' \<or> d = CHR ''-'' then r else cs)
           in ds \<noteq> [] \<and> list_all is_digit ds))"

definition json_frac_exp :: "string \<Rightarrow> bool" where
  "json_frac_exp s =
     (case s of
        [] \<Rightarrow> True
      | c # cs \<Rightarrow>
          if c = CHR ''.'' then takeWhile is_digit cs \<noteq> [] \<and> json_exp (dropWhile is_digit cs)
          else json_exp s)"

definition is_json_number :: "string \<Rightarrow> bool" where
  "is_json_number s =
     (list_all number_char s \<and>
      (let u = (case s of [] \<Rightarrow> [] | c # cs \<Rightarrow> if c = CHR ''-'' then cs else s)
       in json_int (takeWhile is_digit u) \<and> json_frac_exp (dropWhile is_digit u)))"

definition read_num :: "string \<Rightarrow> (string \<times> string) option" where
  "read_num s =
     (let tok = takeWhile number_char s
      in if is_json_number tok then Some (tok, dropWhile number_char s) else None)"

text \<open>
  The reader of one transcription record, as the receiving end of the socket finds it
  on a line: an object with the keys \<open>type\<close>, \<open>text\<close>, \<open>timestamp\<close> and
  \<open>isFinal\<close> in this order, separated as \<open>json.dumps\<close> separates them, a string,
  a string, a number and a boolean as their values, the type being
  \<open>transcription\<close>, and one newline after the closing brace. It returns the text,
  the number as written and the flag.
\<close>

definition read_lit :: "string \<Rightarrow> string \<Rightarrow> string option" where
  "read_lit p s = (if take (length p) s = p then Some (drop (length p) s) else None)"

definition read_bool :: "string \<Rightarrow> (bool \<times> string) option" where
  "read_bool s =
     (case read_lit ''true'' s of
        Some r \<Rightarrow> Some (True, r)
      | None \<Rightarrow> (case read_lit ''false'' s of Some r \<Rightarrow> Some (False, r) | None \<Rightarrow> None))"

definition read_key :: "string \<Rightarrow> string \<Rightarrow> string option" where
  "read_key k s =
     (case read_str s of
        None \<Rightarrow> None
      | Some (name, r) \<Rightarrow> if name = lit k then read_lit '': '' r else None)"

definition read_transcription :: "char list \<Rightarrow> (pystr \<times> string \<times> bool) option" where
  "read_transcription line =
     Option.bind (read_lit ''{'' line) (\<lambda>r.
     Option.bind (read_key ''type'' r) (\<lambda>r.
     Option.bind (read_str r) (\<lambda>(kind, r).
     Option.bind (read_lit '', '' r) (\<lambda>r.
     Option.bind (read_key ''text'' r) (\<lambda>r.
     Option.bind (read_str r) (\<lambda>(txt, r).
     Option.bind (read_lit '', '' r) (\<lambda>r.
     Option.bind (read_key ''timestamp'' r) (\<lambda>r.
     Option.bind (read_num r) (\<lambda>(num, r).
     Option.bind (read_lit '', '' r) (\<lambda>r.
     Option.bind (read_key ''isFinal'' r) (\<lambda>r.
     Option.bind (read_bool r) (\<lambda>(fin, r).
     Option.bind (read_lit ''}'' r) (\<lambda>r.
       if kind = lit ''transcription'' \<and> r = [CHR 0x0A] then Some (txt, num, fin)
       else None)))))))))))))"

text \<open>
  The characters that \<open>json.dumps\<close> copies unchanged.
\<close>

definition plain :: "char \<Rightarrow> bool" where
  "plain c = (printable c \<and> c \<noteq> CHR 0x22 \<and> c \<noteq> CHR 0x5C)"

subsection \<open>Sample inputs\<close>

text \<open>
  A connected streamer, a pass that records near silence (500 bytes), and a pass that
  records speech (20000 bytes) which the engine recognises as \<open>hello world\<close>.
\<close>

definition connected_streamer :: streamer where
  "connected_streamer =
     \<lparr>socket = Some (Sock True True), running = True, temp_dir = Some [],
      segment_counter = 0, last_heartbeat = 90\<rparr>"

definition speech_env :: env where
  "speech_env =
     \<lparr>sox = Proc 2 0 [] [], sox_file = Some 20000,
      engine = Proc 1 0 (lit ''hello world'' @ [10]) [],
      send_ok = True, timestamp = 100.5, now = 100, hb_ok = True,
      conn = (\<lambda>i. ConnRefused),
      float_repr = (\<lambda>x. if x = 200 then ''200.0'' else if x = 100 then ''100.0'' else ''100.5'')\<rparr>"

definition quiet_env :: env where
  "quiet_env = speech_env\<lparr>sox_file := Some 500\<rparr>"

definition short_env :: env where
  "short_env = speech_env\<lparr>engine := Proc 1 0 (lit '' ok '' @ [10]) []\<rparr>"

definition late_env :: env where
  "late_env = speech_env\<lparr>now := 200, hb_ok := False\<rparr>"

definition stalled_env :: env where
  "stalled_env = late_env\<lparr>sox := Proc 6 0 [] []\<rparr>"

definition slow_job :: whisper_job where
  "slow_job = \<lparr>startup = 1, work_time = 6, exit_delay = 0, yield = Inr [lit ''hello world'']\<rparr>"

definition slow_env :: env where
  "slow_env = speech_env\<lparr>engine := whisper_script slow_job\<rparr>"

definition hung_env :: env where
  "hung_env = speech_env\<lparr>engine := Proc 9 0 (lit ''hello world'' @ [10]) []\<rparr>"

definition dropped_env :: env where
  "dropped_env = speech_env\<lparr>send_ok := False\<rparr>"

section \<open>Properties\<close>

subsection \<open>One pass, case by case\<close>

lemma map_of_in_fst: "n \<in> fst ` set fs \<Longrightarrow> map_of fs n \<noteq> None"
  by (simp add: map_of_eq_None_iff)

lemma getsize_exists: "path_exists d n \<Longrightarrow> getsize d n \<noteq> None"
  unfolding path_exists_def getsize_def
  by (cases d) (simp_all add: map_of_in_fst)

text \<open>\<open>os.path.getsize\<close> is only called on a path that exists, so it never raises.\<close>

lemma process_recording_Some: "process_recording e s n rc \<noteq> None"
proof (cases "rc = 0 \<and> path_exists (temp_dir s) n")
  case True
  then obtain sz where "getsize (temp_dir s) n = Some sz"
    using getsize_exists by blast
  with True show ?thesis
    by (simp add: process_recording_def split: prod.splits)
next
  case False
  then show ?thesis by (auto simp: process_recording_def)
qed

lemma loop_body_cases [case_names timeout error completed]:
  fixes e s
  defines "n \<equiv> segment_counter s"
  defines "s2 \<equiv> after_sox e s"
  obtains
    "subprocess_run 5 (sox e) = TimeoutExpired"
    "loop_body e s = (Record n # fst (cleanup s2 n), snd (cleanup s2 n), Continue)"
  | "subprocess_run 5 (sox e) = OtherError"
    "loop_body e s =
       (if needs_reconnect (snd (cleanup s2 n))
        then (case connect_to_nodejs (conn e) (snd (cleanup s2 n)) of
                (evs_k, s3, Returned b) \<Rightarrow>
                  (Record n # fst (cleanup s2 n) @ evs_k @ [Sleep 2], s3, Continue)
              | (evs_k, s3, Raised) \<Rightarrow> (Record n # fst (cleanup s2 n) @ evs_k, s3, ThreadDied))
        else (Record n # fst (cleanup s2 n) @ [Sleep 2], snd (cleanup s2 n), Continue))"
  | rc out err evs where
    "subprocess_run 5 (sox e) = Completed rc out err"
    "process_recording e s2 n rc = Some evs"
    "loop_body e s =
       (Record n # evs @ fst (heartbeat e s2) @ fst (cleanup (snd (heartbeat e s2)) n) @ [Sleep 0.2],
        snd (cleanup (snd (heartbeat e s2)) n), Continue)"
proof (cases "subprocess_run 5 (sox e)")
  case (Completed rc out err)
  obtain evs where "process_recording e s2 n rc = Some evs"
    using process_recording_Some by blast
  with Completed that(3) show ?thesis
    by (simp add: loop_body_def try_body_def Let_def n_def s2_def after_sox_def split: prod.splits)
next
  case TimeoutExpired
  with that(1) show ?thesis
    by (simp add: loop_body_def try_body_def Let_def n_def s2_def after_sox_def split: prod.splits)
next
  case OtherError
  with that(2) show ?thesis
    by (simp add: loop_body_def try_body_def Let_def n_def s2_def after_sox_def
        split: prod.splits outcome.splits)
qed

subsection \<open>The sample passes, evaluated\<close>

lemmas pass_defs = loop_body_def try_body_def Let_def subprocess_run_def process_recording_def
  write_file_def path_exists_def getsize_def transcribe_audio_chunk_def strip_def is_space_def
  lit_def
  send_transcription_def sock_send_def heartbeat_def cleanup_def unlink_def

lemma connected_streamer_at:
  "connected_streamer =
     \<lparr>socket = Some (Sock True True), running = True, temp_dir = Some [],
      segment_counter = 0, last_heartbeat = 90\<rparr>"
  by (simp add: connected_streamer_def)

lemma speech_pass:
  "loop_body speech_env
     \<lparr>socket = Some (Sock True True), running = True, temp_dir = Some [],
      segment_counter = k, last_heartbeat = 90\<rparr> =
     ([Record k, Transcribe k,
       SendTranscription (encode_utf8 (json_dumps (float_repr speech_env)
          (transcription_message (lit ''hello world'') 100.5 True) @ [CHR 0x0A])) True,
       Unlink k, Sleep 0.2],
      \<lparr>socket = Some (Sock True True), running = True, temp_dir = Some [],
       segment_counter = k + 1, last_heartbeat = 90\<rparr>, Continue)"
  by (simp add: pass_defs speech_env_def)

lemma quiet_pass:
  "loop_body quiet_env
     \<lparr>socket = Some (Sock True True), running = True, temp_dir = Some [],
      segment_counter = k, last_heartbeat = 90\<rparr> =
     ([Record k, Unlink k, Sleep 0.2],
      \<lparr>socket = Some (Sock True True), running = True, temp_dir = Some [],
       segment_counter = k + 1, last_heartbeat = 90\<rparr>, Continue)"
  by (simp add: pass_defs quiet_env_def speech_env_def)

lemma short_pass:
  "loop_body short_env
     \<lparr>socket = Some (Sock True True), running = True, temp_dir = Some [],
      segment_counter = k, last_heartbeat = 90\<rparr> =
     ([Record k, Transcribe k, Unlink k, Sleep 0.2],
      \<lparr>socket = Some (Sock True True), running = True, temp_dir = Some [],
       segment_counter = k + 1, last_heartbeat = 90\<rparr>, Continue)"
  by (simp add: pass_defs short_env_def speech_env_def)

lemma late_pass:
  "loop_body late_env
     \<lparr>socket = Some (Sock True True), running = True, temp_dir = Some [],
      segment_counter = k, last_heartbeat = 90\<rparr> =
     ([Record k, Transcribe k,
       SendTranscription (encode_utf8 (json_dumps (float_repr speech_env)
          (transcription_message (lit ''hello world'') 100.5 True) @ [CHR 0x0A])) True,
       SendHeartbeat (encode_utf8 (json_dumps (float_repr speech_env)
          (heartbeat_message 200) @ [CHR 0x0A])) False,
       Unlink k, Sleep 0.2],
      \<lparr>socket = Some (Sock True True), running = True, temp_dir = Some [],
       segment_counter = k + 1, last_heartbeat = 90\<rparr>, Continue)"
  by (simp add: pass_defs late_env_def speech_env_def)

subsection \<open>Where the events of the transcribe-and-send block come from\<close>

lemma cleanup_no_chunk [simp]: "filter in_chunk (fst (cleanup s n)) = []"
  by (simp add: cleanup_def)

lemma heartbeat_no_chunk [simp]: "filter in_chunk (fst (heartbeat e s)) = []"
  by (simp add: heartbeat_def Let_def split: option.splits)

lemma connect_attempts_no_chunk:
  "connect_attempts c xs s = (evs, s', r) \<Longrightarrow> filter in_chunk evs = []"
  by (induction xs arbitrary: s evs s' r) (auto split: conn_outcome.splits prod.splits)

lemma connect_no_chunk:
  "connect_to_nodejs c s = (evs, s', r) \<Longrightarrow> filter in_chunk evs = []"
  unfolding connect_to_nodejs_def by (rule connect_attempts_no_chunk)

lemma transcribe_all_chunk:
  "transcribe_audio_chunk p n = (evs, t) \<Longrightarrow> filter in_chunk evs = evs"
  by (auto simp: transcribe_audio_chunk_def split: run_result.splits)

lemma send_all_chunk:
  "filter in_chunk (fst (send_transcription e s t b)) = fst (send_transcription e s t b)"
  by (simp add: send_transcription_def Let_def split: option.splits)

lemma process_recording_all_chunk:
  "process_recording e s n rc = Some evs \<Longrightarrow> filter in_chunk evs = evs"
  by (auto simp: process_recording_def send_all_chunk split: if_splits option.splits prod.splits
      dest: transcribe_all_chunk)

lemma loop_body_chunk: "filter in_chunk (fst (loop_body e s)) = chunk_events e s"
proof (cases e s rule: loop_body_cases)
  case timeout
  then show ?thesis by (simp add: chunk_events_def)
next
  case error
  then show ?thesis
    by (auto simp: chunk_events_def split: prod.splits outcome.splits dest: connect_no_chunk)
next
  case (completed rc out err evs)
  then show ?thesis
    by (simp add: chunk_events_def process_recording_all_chunk)
qed

lemma list_ex_chunk:
  assumes "\<And>ev. P ev \<Longrightarrow> in_chunk ev"
  shows "list_ex P (fst (loop_body e s)) = list_ex P (chunk_events e s)"
proof -
  have "list_ex P (fst (loop_body e s)) = list_ex P (filter in_chunk (fst (loop_body e s)))"
    using assms by (auto simp: list_ex_iff)
  then show ?thesis by (simp add: loop_body_chunk)
qed

lemma transcribe_in_chunk: "is_transcribe ev \<Longrightarrow> in_chunk ev"
  by (cases ev) simp_all

lemma send_in_chunk: "is_transcription_send ev \<Longrightarrow> in_chunk ev"
  by (cases ev) simp_all

subsection \<open>The size gate\<close>

lemma chunk_events_threshold:
  assumes "chunk_events e s \<noteq> []"
  shows "\<exists>sz. captured_size e s = Some sz \<and> 8000 < sz"
  using assms
  by (auto simp: chunk_events_def captured_size_def process_recording_def
      split: run_result.splits if_splits option.splits prod.splits)

text \<open>
  Claim C2. In a pass whose captured segment has at most 8000 bytes the transcription
  engine is not started and no transcription message is written to the socket; a pass
  that starts the engine has captured more than 8000 bytes.
\<close>

theorem engine_needs_more_than_8000_bytes:
  "(captured_size e s = Some sz \<and> sz \<le> 8000 \<longrightarrow>
      \<not> list_ex is_transcribe (fst (loop_body e s)) \<and>
      \<not> list_ex is_transcription_send (fst (loop_body e s))) \<and>
   (list_ex is_transcribe (fst (loop_body e s)) \<longrightarrow>
      (\<exists>sz'. captured_size e s = Some sz' \<and> 8000 < sz'))"
proof -
  have "\<exists>sz'. captured_size e s = Some sz' \<and> 8000 < sz'"
    if "list_ex P (fst (loop_body e s))" and "\<And>ev. P ev \<Longrightarrow> in_chunk ev" for P
  proof -
    from that have "list_ex P (chunk_events e s)" by (simp add: list_ex_chunk)
    then have "chunk_events e s \<noteq> []" by auto
    then show ?thesis by (rule chunk_events_threshold)
  qed
  from this[of is_transcribe] this[of is_transcription_send]
  show ?thesis by (auto simp: transcribe_in_chunk send_in_chunk)
qed

theorem engine_needs_more_than_8000_bytes_witness:
  "captured_size quiet_env connected_streamer = Some 500 \<and> (500::nat) \<le> 8000 \<and>
   \<not> list_ex is_transcribe (fst (loop_body quiet_env connected_streamer)) \<and>
   \<not> list_ex is_transcription_send (fst (loop_body quiet_env connected_streamer)) \<and>
   list_ex is_transcribe (fst (loop_body speech_env connected_streamer)) \<and>
   (\<exists>sz'. captured_size speech_env connected_streamer = Some sz' \<and> 8000 < sz')"
proof -
  have quiet: "captured_size quiet_env connected_streamer = Some 500"
    by (simp add: captured_size_def after_sox_def write_file_def getsize_def quiet_env_def
        speech_env_def connected_streamer_def)
  have speech: "list_ex is_transcribe (fst (loop_body speech_env connected_streamer))"
    by (simp add: connected_streamer_at speech_pass)
  from quiet speech
    engine_needs_more_than_8000_bytes [of quiet_env connected_streamer 500]
    engine_needs_more_than_8000_bytes [of speech_env connected_streamer 0]
  show ?thesis by simp
qed

subsection \<open>The text gate\<close>

lemma transcribe_no_send:
  "\<not> list_ex is_transcription_send (fst (transcribe_audio_chunk p n))"
  by (simp add: transcribe_audio_chunk_def split: run_result.splits)

lemma chunk_events_send:
  assumes "list_ex is_transcription_send (chunk_events e s)"
  shows "2 < length (strip (transcription_of e s))"
proof -
  obtain evs t where tr: "transcribe_audio_chunk (engine e) (segment_counter s) = (evs, t)"
    by (cases "transcribe_audio_chunk (engine e) (segment_counter s)")
  have "\<not> list_ex is_transcription_send evs"
    using transcribe_no_send [of "engine e" "segment_counter s"] tr by simp
  with assms tr show ?thesis
    by (auto simp: chunk_events_def process_recording_def transcription_of_def
        split: run_result.splits if_splits option.splits)
qed

text \<open>
  Claim C3. When the text returned by the transcription has a trimmed length of at
  most 2 (the empty text included), the pass writes no transcription message to the
  socket; a pass that writes one had a text of trimmed length above 2.
\<close>

theorem short_transcription_not_sent:
  "(length (strip (transcription_of e s)) \<le> 2 \<longrightarrow>
      \<not> list_ex is_transcription_send (fst (loop_body e s))) \<and>
   (list_ex is_transcription_send (fst (loop_body e s)) \<longrightarrow>
      2 < length (strip (transcription_of e s)))"
proof -
  have "2 < length (strip (transcription_of e s))"
    if "list_ex is_transcription_send (fst (loop_body e s))"
    using that chunk_events_send [of e s] by (simp add: list_ex_chunk send_in_chunk)
  then show ?thesis by auto
qed

theorem short_transcription_not_sent_witness:
  "length (strip (transcription_of short_env connected_streamer)) \<le> 2 \<and>
   \<not> list_ex is_transcription_send (fst (loop_body short_env connected_streamer)) \<and>
   list_ex is_transcription_send (fst (loop_body speech_env connected_streamer)) \<and>
   2 < length (strip (transcription_of speech_env connected_streamer))"
proof -
  have short: "length (strip (transcription_of short_env connected_streamer)) \<le> 2"
    by (simp add: transcription_of_def transcribe_audio_chunk_def subprocess_run_def strip_def
        is_space_def lit_def short_env_def speech_env_def)
  have speech: "list_ex is_transcription_send (fst (loop_body speech_env connected_streamer))"
    by (simp add: connected_streamer_at speech_pass)
  from short speech
    short_transcription_not_sent [of short_env connected_streamer]
    short_transcription_not_sent [of speech_env connected_streamer]
  show ?thesis by simp
qed

subsection \<open>Connecting\<close>

lemma connect_attempts_events:
  "fst (connect_attempts c xs s) = retry_schedule c xs"
proof (induction xs arbitrary: s)
  case Nil
  then show ?case by (simp add: retry_schedule_def)
next
  case (Cons i xs)
  show ?case
  proof (cases "c i")
    case ConnOk
    then show ?thesis by (simp add: retry_schedule_def)
  next
    case ConnRefused
    obtain evs s' r where rest: "connect_attempts c xs (s\<lparr>socket := Some (Sock False False)\<rparr>) = (evs, s', r)"
      by (cases "connect_attempts c xs (s\<lparr>socket := Some (Sock False False)\<rparr>)")
    with Cons.IH [of "s\<lparr>socket := Some (Sock False False)\<rparr>"] have "evs = retry_schedule c xs" by simp
    with ConnRefused rest show ?thesis by (simp add: retry_schedule_def retry_delay_def)
  next
    case ConnOtherError
    then show ?thesis by (simp add: retry_schedule_def)
  qed
qed

lemma connect_attempts_result:
  "snd (snd (connect_attempts c xs s)) =
     (case dropWhile (\<lambda>i. c i = ConnRefused) xs of
        [] \<Rightarrow> Returned False
      | i # rest \<Rightarrow> if c i = ConnOk then Returned True else Raised)"
proof (induction xs arbitrary: s)
  case Nil
  then show ?case by simp
next
  case (Cons i xs)
  show ?case
  proof (cases "c i")
    case ConnRefused
    obtain evs s' r where rest: "connect_attempts c xs (s\<lparr>socket := Some (Sock False False)\<rparr>) = (evs, s', r)"
      by (cases "connect_attempts c xs (s\<lparr>socket := Some (Sock False False)\<rparr>)")
    with Cons.IH [of "s\<lparr>socket := Some (Sock False False)\<rparr>"] ConnRefused show ?thesis by simp
  qed simp_all
qed

lemma connect_attempts_count:
  "length (filter is_connect (fst (connect_attempts c xs s))) \<le> length xs"
proof (induction xs arbitrary: s)
  case Nil
  then show ?case by simp
next
  case (Cons i xs)
  show ?case
  proof (cases "c i")
    case ConnRefused
    obtain evs s' r where rest: "connect_attempts c xs (s\<lparr>socket := Some (Sock False False)\<rparr>) = (evs, s', r)"
      by (cases "connect_attempts c xs (s\<lparr>socket := Some (Sock False False)\<rparr>)")
    with Cons.IH [of "s\<lparr>socket := Some (Sock False False)\<rparr>"] ConnRefused show ?thesis by simp
  qed simp_all
qed

lemma connect_attempts_all_refused:
  "\<forall>i\<in>set xs. c i = ConnRefused \<Longrightarrow>
   fst (snd (connect_attempts c xs s)) =
     (if xs = [] then s else s\<lparr>socket := Some (Sock False False)\<rparr>)"
proof (induction xs arbitrary: s)
  case Nil
  then show ?case by simp
next
  case (Cons i xs)
  let ?s = "s\<lparr>socket := Some (Sock False False)\<rparr>"
  obtain evs s' r where rest: "connect_attempts c xs ?s = (evs, s', r)"
    by (cases "connect_attempts c xs ?s")
  from Cons.prems have "\<forall>i\<in>set xs. c i = ConnRefused" by simp
  from Cons.IH [OF this, of ?s] rest
  have "s' = ?s" by (simp split: if_splits)
  with Cons.prems rest show ?case by simp
qed

text \<open>
  Claim C5 says that every kind of connection failure is retried and ends in a returned
  value. A failure other than a refusal is not caught: the first such attempt is the
  last one, no delay follows, and the exception leaves \<open>connect_to_nodejs\<close>.
\<close>

theorem connect_other_error_raises:
  "connect_to_nodejs (\<lambda>i. ConnOtherError) (init 0) =
     ([ConnectAttempt 0 ConnOtherError], (init 0)\<lparr>socket := Some (Sock True False)\<rparr>, Raised)"
  by (simp add: connect_to_nodejs_def max_retries_def upt_rec)

lemma all_refused_dropWhile: "\<forall>i\<in>set xs. c i = ConnRefused \<Longrightarrow> dropWhile (\<lambda>i. c i = ConnRefused) xs = []"
  by simp

lemma all_refused_takeWhile: "\<forall>i\<in>set xs. c i = ConnRefused \<Longrightarrow> takeWhile (\<lambda>i. c i = ConnRefused) xs = xs"
  by simp

lemma no_other_dropWhile:
  assumes "\<forall>i\<in>set xs. c i \<noteq> ConnOtherError"
  shows "(case dropWhile (\<lambda>i. c i = ConnRefused) xs of [] \<Rightarrow> Returned False
      | i # rest \<Rightarrow> if c i = ConnOk then Returned True else Raised) \<noteq> Raised"
proof (cases "dropWhile (\<lambda>i. c i = ConnRefused) xs")
  case Nil
  then show ?thesis by (simp only: list.case) simp
next
  case (Cons i rest)
  then have "i \<in> set xs"
    using set_dropWhileD [of i "\<lambda>i. c i = ConnRefused" xs] by simp
  moreover from Cons have "c i \<noteq> ConnRefused"
    using hd_dropWhile [of "\<lambda>i. c i = ConnRefused" xs] by simp
  ultimately have "c i = ConnOk"
    using assms by (cases "c i") auto
  with Cons show ?thesis by (simp only: list.case) simp
qed

lemma retry_schedule_all_refused:
  assumes "\<forall>i\<in>set xs. c i = ConnRefused"
  shows "retry_schedule c xs = concat (map (\<lambda>i. [ConnectAttempt i ConnRefused, Sleep 2]) xs)"
  unfolding retry_schedule_def all_refused_takeWhile [OF assms] all_refused_dropWhile [OF assms]
  by simp

lemma result_all_refused:
  assumes "\<forall>i\<in>set xs. c i = ConnRefused"
  shows "snd (snd (connect_attempts c xs s)) = Returned False"
  unfolding connect_attempts_result all_refused_dropWhile [OF assms]
  by simp

text \<open>
  Claim C5, amended. \<open>connect_to_nodejs\<close> makes at most 5 attempts. Its trace is the
  retry schedule: each refused attempt is followed by a sleep of 2 seconds and the
  next attempt. When no attempt fails other than by refusal the method returns a value
  and does not raise; after 5 refusals it returns \<open>False\<close>, and \<open>main\<close> then returns
  without a single pass of the capture loop.
\<close>

theorem connect_budget:
  "length (filter is_connect (fst (connect_to_nodejs c s))) \<le> 5 \<and>
   fst (connect_to_nodejs c s) = retry_schedule c [0..<5] \<and>
   ((\<forall>i<5. c i \<noteq> ConnOtherError) \<longrightarrow> snd (snd (connect_to_nodejs c s)) \<noteq> Raised) \<and>
   ((\<forall>i<5. c i = ConnRefused) \<longrightarrow>
      connect_to_nodejs c s =
        (concat (map (\<lambda>i. [ConnectAttempt i ConnRefused, Sleep 2]) [0..<5]),
         s\<lparr>socket := Some (Sock False False)\<rparr>, Returned False) \<and>
      main t0 c sox_test whisper_test es =
        (concat (map (\<lambda>i. [ConnectAttempt i ConnRefused, Sleep 2]) [0..<5]), [],
         (init t0)\<lparr>socket := Some (Sock False False)\<rparr>, ConnectFailed))"
proof -
  have count: "length (filter is_connect (fst (connect_to_nodejs c s))) \<le> 5"
    using connect_attempts_count [of c "[0..<max_retries]" s]
    by (simp add: connect_to_nodejs_def max_retries_def)
  have sched: "fst (connect_to_nodejs c s) = retry_schedule c [0..<5]"
    by (simp add: connect_to_nodejs_def max_retries_def connect_attempts_events)
  have noraise: "snd (snd (connect_to_nodejs c s)) \<noteq> Raised" if "\<forall>i<5. c i \<noteq> ConnOtherError"
    using that no_other_dropWhile [of "[0..<5]" c]
    by (simp add: connect_to_nodejs_def max_retries_def connect_attempts_result)
  have refused: "connect_to_nodejs c s' =
        (concat (map (\<lambda>i. [ConnectAttempt i ConnRefused, Sleep 2]) [0..<5]),
         s'\<lparr>socket := Some (Sock False False)\<rparr>, Returned False)" if "\<forall>i<5. c i = ConnRefused" for s'
  proof -
    from that have all: "\<forall>i\<in>set [0..<5]. c i = ConnRefused" by simp
    have "fst (connect_to_nodejs c s') = concat (map (\<lambda>i. [ConnectAttempt i ConnRefused, Sleep 2]) [0..<5])"
      using retry_schedule_all_refused [OF all]
      by (simp only: connect_to_nodejs_def max_retries_def connect_attempts_events)
    moreover have "fst (snd (connect_to_nodejs c s')) = s'\<lparr>socket := Some (Sock False False)\<rparr>"
      using connect_attempts_all_refused [OF all, of s']
      by (simp only: connect_to_nodejs_def max_retries_def) simp
    moreover have "snd (snd (connect_to_nodejs c s')) = Returned False"
      using result_all_refused [OF all]
      by (simp only: connect_to_nodejs_def max_retries_def)
    ultimately show ?thesis by (metis prod.collapse)
  qed
  have "main t0 c sox_test whisper_test es =
        (concat (map (\<lambda>i. [ConnectAttempt i ConnRefused, Sleep 2]) [0..<5]), [],
         (init t0)\<lparr>socket := Some (Sock False False)\<rparr>, ConnectFailed)" if "\<forall>i<5. c i = ConnRefused"
    using refused [OF that, of "init t0"] by (simp add: main_def)
  with count sched noraise refused show ?thesis by blast
qed

theorem connect_budget_witness:
  "connect_to_nodejs (\<lambda>i. ConnRefused) (init 0) =
     ([ConnectAttempt 0 ConnRefused, Sleep 2, ConnectAttempt 1 ConnRefused, Sleep 2,
       ConnectAttempt 2 ConnRefused, Sleep 2, ConnectAttempt 3 ConnRefused, Sleep 2,
       ConnectAttempt 4 ConnRefused, Sleep 2],
      (init 0)\<lparr>socket := Some (Sock False False)\<rparr>, Returned False) \<and>
   fst (snd (main 0 (\<lambda>i. ConnRefused) (Proc 1 0 [] []) (Proc 1 0 [] []) [speech_env])) = []"
  using connect_budget [of "\<lambda>i. ConnRefused" "init 0" 0 "Proc 1 0 [] []" "Proc 1 0 [] []" "[speech_env]"]
  by (simp add: upt_rec)

subsection \<open>Temporary files\<close>

lemma unlink_gone: "\<not> path_exists (unlink d n) n"
  by (cases d) (auto simp: path_exists_def unlink_def)

lemma unlink_subset: "path_exists (unlink d n) k \<Longrightarrow> path_exists d k"
  by (cases d) (auto simp: path_exists_def unlink_def)

lemma unlink_absent: "\<not> path_exists d n \<Longrightarrow> unlink d n = d"
proof (cases d)
  case None
  then show ?thesis by (simp add: unlink_def)
next
  case (Some fs)
  assume "\<not> path_exists d n"
  with Some have "\<forall>kv\<in>set fs. fst kv \<noteq> n" by (auto simp: path_exists_def)
  then have "filter (\<lambda>kv. fst kv \<noteq> n) fs = fs" by (simp add: filter_id_conv)
  with Some show ?thesis by (simp add: unlink_def)
qed

lemma unlink_write: "unlink (write_file d n w) n = unlink d n"
  by (cases d; cases w) (simp_all add: unlink_def write_file_def)

lemma cleanup_temp_dir: "temp_dir (snd (cleanup s n)) = unlink (temp_dir s) n"
  by (simp add: cleanup_def unlink_absent)

lemma heartbeat_temp_dir [simp]: "temp_dir (snd (heartbeat e s)) = temp_dir s"
  by (simp add: heartbeat_def Let_def split: option.splits)

lemma connect_attempts_temp_dir:
  "connect_attempts c xs s = (evs, s', r) \<Longrightarrow> temp_dir s' = temp_dir s"
  by (induction xs arbitrary: s evs s' r) (auto split: conn_outcome.splits prod.splits)

lemma connect_temp_dir: "connect_to_nodejs c s = (evs, s', r) \<Longrightarrow> temp_dir s' = temp_dir s"
  unfolding connect_to_nodejs_def by (rule connect_attempts_temp_dir)

lemma loop_body_temp_dir:
  "temp_dir (fst (snd (loop_body e s))) = unlink (temp_dir s) (segment_counter s)"
proof (cases e s rule: loop_body_cases)
  case timeout
  then show ?thesis by (simp add: cleanup_temp_dir after_sox_def unlink_write)
next
  case error
  then show ?thesis
    by (auto simp: cleanup_temp_dir after_sox_def unlink_write
        split: prod.splits outcome.splits dest: connect_temp_dir)
next
  case (completed rc out err evs)
  then show ?thesis by (simp add: cleanup_temp_dir after_sox_def unlink_write)
qed

lemma run_loop_temp_dir_empty:
  "temp_dir s = Some [] \<Longrightarrow> temp_dir (fst (snd (run_loop es s))) = Some []"
proof (induction es arbitrary: s)
  case Nil
  then show ?case by simp
next
  case (Cons e es)
  obtain evs s1 st where body: "loop_body e s = (evs, s1, st)"
    by (cases "loop_body e s")
  with loop_body_temp_dir [of e s] Cons.prems have s1: "temp_dir s1 = Some []"
    by (simp add: unlink_def)
  from Cons.IH [OF s1] s1 body Cons.prems show ?case
    by (cases st) (auto split: prod.splits)
qed

lemma start_streaming_temp_dir:
  "probe_ok 5 sox_test \<Longrightarrow> probe_ok 10 whisper_test \<Longrightarrow>
   temp_dir (fst (snd (start_streaming sox_test whisper_test es s))) = None"
  by (auto simp: start_streaming_def Let_def rmtree_def close_socket_def split: prod.splits option.splits)

text \<open>
  Claim C6. On every path through a pass (sent, filtered out, recorder timed out or
  failed, transcription timed out or failed, send failed, reconnect raised) the audio
  file of the pass does not exist when the pass ends, and no other file has appeared;
  a run that starts with an empty temporary directory leaves it empty; and the
  \<open>finally\<close> block of \<open>start_streaming\<close> removes the directory itself.
\<close>

theorem no_artifact_left:
  "\<not> path_exists (temp_dir (fst (snd (loop_body e s)))) (segment_counter s) \<and>
   (\<forall>k. path_exists (temp_dir (fst (snd (loop_body e s)))) k \<longrightarrow> path_exists (temp_dir s) k) \<and>
   (temp_dir s = Some [] \<longrightarrow> temp_dir (fst (snd (run_loop es s))) = Some []) \<and>
   (probe_ok 5 sox_test \<and> probe_ok 10 whisper_test \<longrightarrow>
      temp_dir (fst (snd (start_streaming sox_test whisper_test es s))) = None)"
  by (simp add: loop_body_temp_dir unlink_gone unlink_subset run_loop_temp_dir_empty start_streaming_temp_dir)

theorem no_artifact_left_witness:
  "path_exists (temp_dir (after_sox speech_env connected_streamer)) (segment_counter connected_streamer) \<and>
   \<not> path_exists (temp_dir (fst (snd (loop_body speech_env connected_streamer))))
        (segment_counter connected_streamer) \<and>
   temp_dir connected_streamer = Some [] \<and>
   temp_dir (fst (snd (run_loop [speech_env, quiet_env] connected_streamer))) = Some [] \<and>
   probe_ok 5 (Proc 1 0 [] []) \<and> probe_ok 10 (Proc 1 0 [] []) \<and>
   temp_dir (fst (snd (start_streaming (Proc 1 0 [] []) (Proc 1 0 [] []) [speech_env, quiet_env]
      connected_streamer))) = None"
proof -
  have made: "path_exists (temp_dir (after_sox speech_env connected_streamer)) (segment_counter connected_streamer)"
    by (simp add: after_sox_def write_file_def path_exists_def speech_env_def
        connected_streamer_def)
  have empty: "temp_dir connected_streamer = Some []"
    by (simp add: connected_streamer_def)
  have probes: "probe_ok 5 (Proc 1 0 [] [])" "probe_ok 10 (Proc 1 0 [] [])"
    by (simp_all add: probe_ok_def subprocess_run_def)
  from made empty probes
    no_artifact_left [of speech_env connected_streamer "[speech_env, quiet_env]" "Proc 1 0 [] []" "Proc 1 0 [] []"]
  show ?thesis by simp
qed

subsection \<open>One segment at a time\<close>

lemma run_loop_Cons:
  "fst (run_loop (e # es) s) =
     (if \<not> running s then []
      else pass_events e s @
           (if snd (snd (loop_body e s)) = ThreadDied then []
            else fst (run_loop es (fst (snd (loop_body e s))))))"
  by (cases "loop_body e s"; cases "snd (snd (loop_body e s))")
     (auto simp: pass_events_def split: prod.splits status.splits)

lemma run_loop_step:
  "run_loop (e # es) s =
     (if \<not> running s then ([], s, Exited)
      else if snd (snd (loop_body e s)) = ThreadDied
           then (pass_events e s, fst (snd (loop_body e s)), ThreadDied)
           else (pass_events e s @ fst (run_loop es (fst (snd (loop_body e s)))),
                 snd (run_loop es (fst (snd (loop_body e s))))))"
  by (cases "loop_body e s"; cases "snd (snd (loop_body e s))")
     (auto simp: pass_events_def split: prod.splits status.splits)

lemma heartbeat_counter [simp]: "segment_counter (snd (heartbeat e s)) = segment_counter s"
  by (simp add: heartbeat_def Let_def split: option.splits)

lemma cleanup_counter [simp]: "segment_counter (snd (cleanup s n)) = segment_counter s"
  by (simp add: cleanup_def)

lemma connect_attempts_counter:
  "connect_attempts c xs s = (evs, s', r) \<Longrightarrow> segment_counter s' = segment_counter s"
  by (induction xs arbitrary: s evs s' r) (auto split: conn_outcome.splits prod.splits)

lemma connect_counter: "connect_to_nodejs c s = (evs, s', r) \<Longrightarrow> segment_counter s' = segment_counter s"
  unfolding connect_to_nodejs_def by (rule connect_attempts_counter)

lemma loop_body_counter:
  "segment_counter (fst (snd (loop_body e s))) = segment_counter s + 1"
proof (cases e s rule: loop_body_cases)
  case timeout
  then show ?thesis by (simp add: after_sox_def)
next
  case error
  then show ?thesis
    by (auto simp: after_sox_def split: prod.splits outcome.splits dest: connect_counter)
next
  case (completed rc out err evs)
  then show ?thesis by (simp add: after_sox_def)
qed

lemma cleanup_touches: "list_all (touches n) (fst (cleanup s n))"
  by (simp add: cleanup_def touches_def)

lemma heartbeat_touches: "list_all (touches n) (fst (heartbeat e s))"
  by (simp add: heartbeat_def Let_def touches_def split: option.splits)

lemma connect_attempts_touches:
  "connect_attempts c xs s = (evs, s', r) \<Longrightarrow> list_all (touches n) evs"
  by (induction xs arbitrary: s evs s' r) (auto simp: touches_def split: conn_outcome.splits prod.splits)

lemma connect_touches: "connect_to_nodejs c s = (evs, s', r) \<Longrightarrow> list_all (touches n) evs"
  unfolding connect_to_nodejs_def by (rule connect_attempts_touches)

lemma process_recording_touches:
  "process_recording e s n rc = Some evs \<Longrightarrow> list_all (touches n) evs"
  by (auto simp: process_recording_def transcribe_audio_chunk_def send_transcription_def Let_def touches_def
      split: if_splits option.splits prod.splits run_result.splits)

lemma loop_body_touches: "list_all (touches (segment_counter s)) (fst (loop_body e s))"
proof (cases e s rule: loop_body_cases)
  case timeout
  then show ?thesis by (simp add: cleanup_touches) (simp add: touches_def)
next
  case error
  then show ?thesis
    using cleanup_touches [of "segment_counter s" "after_sox e s"]
    by (auto simp: touches_def [of _ "Record _"] touches_def [of _ "Sleep _"]
        split: prod.splits outcome.splits dest: connect_touches)
next
  case (completed rc out err evs)
  then show ?thesis
    by (simp add: cleanup_touches heartbeat_touches process_recording_touches)
       (simp add: touches_def)
qed

lemma cleanup_no_record [simp]: "filter is_record (fst (cleanup s n)) = []"
  by (simp add: cleanup_def)

lemma heartbeat_no_record [simp]: "filter is_record (fst (heartbeat e s)) = []"
  by (simp add: heartbeat_def Let_def split: option.splits)

lemma connect_attempts_no_record:
  "connect_attempts c xs s = (evs, s', r) \<Longrightarrow> filter is_record evs = []"
  by (induction xs arbitrary: s evs s' r) (auto split: conn_outcome.splits prod.splits)

lemma connect_no_record: "connect_to_nodejs c s = (evs, s', r) \<Longrightarrow> filter is_record evs = []"
  unfolding connect_to_nodejs_def by (rule connect_attempts_no_record)

lemma process_recording_no_record:
  "process_recording e s n rc = Some evs \<Longrightarrow> filter is_record evs = []"
  by (auto simp: process_recording_def transcribe_audio_chunk_def send_transcription_def Let_def
      split: if_splits option.splits prod.splits run_result.splits)

lemma loop_body_records: "filter is_record (fst (loop_body e s)) = [Record (segment_counter s)]"
proof (cases e s rule: loop_body_cases)
  case timeout
  then show ?thesis by simp
next
  case error
  then show ?thesis
    by (auto split: prod.splits outcome.splits dest: connect_no_record)
next
  case (completed rc out err evs)
  then show ?thesis by (simp add: process_recording_no_record)
qed

lemma chunk_events_one_send:
  "length (filter is_transcription_send (chunk_events e s)) \<le> 1"
  by (auto simp: chunk_events_def process_recording_def transcribe_audio_chunk_def send_transcription_def Let_def
      split: if_splits option.splits prod.splits run_result.splits)

lemma filter_send_chunk:
  "filter is_transcription_send (filter in_chunk evs) = filter is_transcription_send evs"
  by (induction evs) (auto dest: send_in_chunk)

lemma loop_body_one_send:
  "length (filter is_transcription_send (fst (loop_body e s))) \<le> 1"
  using chunk_events_one_send [of e s] filter_send_chunk [of "fst (loop_body e s)"]
  by (simp add: loop_body_chunk)

lemma captures_pass: "captures (pass_events e s) = [segment_counter s]"
proof -
  have "filter (\<lambda>x. is_record (snd x)) (map (Pair n) evs) = map (Pair n) (filter is_record evs)" for n :: int and evs
    by (induction evs) auto
  then show ?thesis by (simp add: captures_def pass_events_def loop_body_records)
qed

lemma deliveries_pass:
  "deliveries (pass_events e s) = [] \<or> deliveries (pass_events e s) = [segment_counter s]"
proof -
  have eq: "filter (\<lambda>x. is_transcription_send (snd x)) (map (Pair n) evs) = map (Pair n) (filter is_transcription_send evs)" for n :: int and evs
    by (induction evs) auto
  show ?thesis
  proof (cases "filter is_transcription_send (fst (loop_body e s))")
    case Nil
    then show ?thesis by (simp add: deliveries_def pass_events_def eq)
  next
    case (Cons ev rest)
    with loop_body_one_send [of e s] have "rest = []" by simp
    with Cons show ?thesis by (simp add: deliveries_def pass_events_def eq)
  qed
qed

lemma tags_pass: "map fst (pass_events e s) = replicate (length (fst (loop_body e s))) (segment_counter s)"
  by (simp add: pass_events_def map_replicate_const comp_def)

lemma own_file_pass: "list_all own_file (pass_events e s)"
  using loop_body_touches [of s e]
  by (auto simp: pass_events_def list_all_iff own_file_def touches_def split: option.splits)

lemma captures_append [simp]: "captures (xs @ ys) = captures xs @ captures ys"
  by (simp add: captures_def)

lemma deliveries_append [simp]: "deliveries (xs @ ys) = deliveries xs @ deliveries ys"
  by (simp add: deliveries_def)

lemma run_loop_tags_lower:
  "\<forall>n\<in>set (map fst (fst (run_loop es s))). segment_counter s \<le> n"
proof (induction es arbitrary: s)
  case Nil
  then show ?case by simp
next
  case (Cons e es)
  from Cons.IH [of "fst (snd (loop_body e s))"]
  show ?case
    unfolding run_loop_Cons
    by (auto simp: loop_body_counter pass_events_def simp del: run_loop.simps)
qed

lemma captures_subset_tags: "set (captures tr) \<subseteq> set (map fst tr)"
  by (auto simp: captures_def)

lemma deliveries_subset_tags: "set (deliveries tr) \<subseteq> set (map fst tr)"
  by (auto simp: deliveries_def)

lemma run_loop_sequential:
  "sorted (map fst (fst (run_loop es s))) \<and>
   sorted_wrt (<) (captures (fst (run_loop es s))) \<and>
   sorted_wrt (<) (deliveries (fst (run_loop es s))) \<and>
   subseq (deliveries (fst (run_loop es s))) (captures (fst (run_loop es s))) \<and>
   list_all own_file (fst (run_loop es s))"
proof (induction es arbitrary: s)
  case Nil
  then show ?case by (simp add: captures_def deliveries_def)
next
  case (Cons e es)
  let ?s1 = "fst (snd (loop_body e s))"
  let ?rest = "fst (run_loop es ?s1)"
  let ?n = "segment_counter s"
  have lower: "\<forall>k\<in>set (map fst ?rest). ?n + 1 \<le> k"
    using run_loop_tags_lower [of es ?s1] by (simp add: loop_body_counter)
  have lowc: "\<forall>k\<in>set (captures ?rest). ?n < k"
    using lower captures_subset_tags [of ?rest] by fastforce
  have lowd: "\<forall>k\<in>set (deliveries ?rest). ?n < k"
    using lower deliveries_subset_tags [of ?rest] by fastforce
  have sub: "subseq (deliveries (pass_events e s)) (captures (pass_events e s))"
    using deliveries_pass [of e s] by (auto simp: captures_pass)
  have "subseq (deliveries (pass_events e s) @ deliveries ?rest)
          (captures (pass_events e s) @ captures ?rest)"
    using sub Cons.IH [of ?s1] by (intro list_emb_append_mono) simp_all
  then have sub1: "subseq (deliveries (pass_events e s) @ deliveries ?rest) (?n # captures ?rest)"
    by (simp add: captures_pass)
  have d1: "sorted_wrt (<) (deliveries (pass_events e s) @ deliveries ?rest)"
    using deliveries_pass [of e s] lowd Cons.IH [of ?s1] by (auto simp: sorted_wrt_append)
  have d0: "sorted_wrt (<) (deliveries (pass_events e s))"
    using deliveries_pass [of e s] by auto
  have t1: "sorted (map fst (pass_events e s) @ map fst ?rest)"
    using lower Cons.IH [of ?s1] by (auto simp: sorted_append tags_pass)
  have t0: "sorted (map fst (pass_events e s))"
    by (simp add: tags_pass)
  show ?case
    unfolding run_loop_Cons
    using Cons.IH [of ?s1] lowc sub sub1 d1 d0 t1 t0 own_file_pass [of e s]
    by (auto simp: captures_pass captures_def [of "[]"] deliveries_def [of "[]"]
        simp del: run_loop.simps intro: list_emb_append_mono)
qed


lemma in_flight_unlink:
  "in_flight s = [] \<Longrightarrow> temp_dir s' = unlink (temp_dir s) n \<Longrightarrow> in_flight s' = []"
  by (cases "temp_dir s") (simp_all add: in_flight_def unlink_def)

lemma in_flight_after_sox:
  "in_flight s = [] \<Longrightarrow>
   in_flight (after_sox e s) = [] \<or> in_flight (after_sox e s) = [segment_counter s]"
  by (cases "temp_dir s"; cases "sox_file e")
     (simp_all add: in_flight_def after_sox_def write_file_def)

lemma in_flight_heartbeat [simp]: "in_flight (snd (heartbeat e s)) = in_flight s"
  by (simp add: in_flight_def)

lemma in_flight_cleanup:
  "in_flight s = [] \<or> in_flight s = [n] \<Longrightarrow> in_flight (snd (cleanup s n)) = []"
  by (cases "temp_dir s") (auto simp: in_flight_def cleanup_def path_exists_def unlink_def)

lemma in_flight_pass:
  assumes "in_flight s = []"
  shows "in_flight (fst (snd (loop_body e s))) = []"
  using assms loop_body_temp_dir [of e s] by (rule in_flight_unlink)

lemma in_flight_pass_states:
  assumes "in_flight s = []"
  shows "list_all (\<lambda>t. in_flight t = [] \<or> in_flight t = [segment_counter s]) (pass_states e s)"
  using assms in_flight_after_sox [OF assms, of e] in_flight_pass [OF assms, of e]
    in_flight_cleanup [OF in_flight_after_sox [OF assms, of e]]
  by (auto simp: pass_states_def)

lemma in_flight_run:
  "in_flight s = [] \<Longrightarrow> in_flight (fst (snd (run_loop es s))) = []"
proof (induction es arbitrary: s)
  case Nil
  then show ?case by simp
next
  case (Cons e es)
  from Cons.IH [OF in_flight_pass [OF Cons.prems, of e]] Cons.prems in_flight_pass [OF Cons.prems, of e]
  show ?case
    unfolding run_loop_step by (simp del: run_loop.simps)
qed

text \<open>
  Claim C8. In the trace of a run the segment numbers never decrease, so every event of
  one segment comes before every event of the next; the recorded segments and the
  segments whose transcription is written to the socket are both strictly increasing,
  and the second list is a subsequence of the first (at most one message per segment,
  in capture order); every file operation of a pass is on that pass's own file; and
  every pass advances the segment counter by one. When no segment is in flight at the
  start, then in every state of a pass the only segment that can be in flight is the
  pass's own, none is in flight when the pass ends, and none is in flight after any
  number of passes of a run.
\<close>

theorem segments_one_at_a_time:
  "sorted (map fst (fst (run_loop es s))) \<and>
   sorted_wrt (<) (captures (fst (run_loop es s))) \<and>
   sorted_wrt (<) (deliveries (fst (run_loop es s))) \<and>
   subseq (deliveries (fst (run_loop es s))) (captures (fst (run_loop es s))) \<and>
   list_all own_file (fst (run_loop es s)) \<and>
   segment_counter (fst (snd (loop_body e s))) = segment_counter s + 1 \<and>
   (in_flight s = [] \<longrightarrow>
      list_all (\<lambda>t. in_flight t = [] \<or> in_flight t = [segment_counter s]) (pass_states e s) \<and>
      in_flight (fst (snd (loop_body e s))) = [] \<and>
      in_flight (fst (snd (run_loop (take k es) s))) = [])"
  using run_loop_sequential [of es s] loop_body_counter [of e s] in_flight_pass_states [of s e]
    in_flight_pass [of s e] in_flight_run [of s "take k es"]
  by simp

theorem segments_one_at_a_time_witness:
  "captures (fst (run_loop [speech_env, quiet_env, speech_env] connected_streamer)) = [0, 1, 2] \<and>
   deliveries (fst (run_loop [speech_env, quiet_env, speech_env] connected_streamer)) = [0, 2] \<and>
   sorted_wrt (<) (deliveries (fst (run_loop [speech_env, quiet_env, speech_env] connected_streamer))) \<and>
   subseq (deliveries (fst (run_loop [speech_env, quiet_env, speech_env] connected_streamer)))
     (captures (fst (run_loop [speech_env, quiet_env, speech_env] connected_streamer))) \<and>
   in_flight connected_streamer = [] \<and>
   in_flight (after_sox speech_env connected_streamer) = [0] \<and>
   in_flight (fst (snd (loop_body speech_env connected_streamer))) = [] \<and>
   in_flight (fst (snd (run_loop (take 2 [speech_env, quiet_env, speech_env]) connected_streamer))) = []"
proof -
  have c: "captures (fst (run_loop [speech_env, quiet_env, speech_env] connected_streamer)) = [0, 1, 2]"
    by (simp add: connected_streamer_at speech_pass quiet_pass captures_def)
  have d: "deliveries (fst (run_loop [speech_env, quiet_env, speech_env] connected_streamer)) = [0, 2]"
    by (simp add: connected_streamer_at speech_pass quiet_pass deliveries_def)
  have empty: "in_flight connected_streamer = []"
    by (simp add: in_flight_def connected_streamer_def)
  have one: "in_flight (after_sox speech_env connected_streamer) = [0]"
    by (simp add: in_flight_def after_sox_def write_file_def connected_streamer_def speech_env_def)
  from c d empty one
    segments_one_at_a_time [of "[speech_env, quiet_env, speech_env]" connected_streamer speech_env 2]
  show ?thesis by blast
qed

subsection \<open>Heartbeats\<close>

lemma same_env_fields:
  assumes "same_but_hb_ok e e'"
  shows "sox e' = sox e" "sox_file e' = sox_file e" "engine e' = engine e" "send_ok e' = send_ok e"
    "timestamp e' = timestamp e" "now e' = now e" "conn e' = conn e" "float_repr e' = float_repr e"
  using assms unfolding same_but_hb_ok_def
  by (metis env.select_convs env.surjective env.update_convs)+

lemma heartbeat_other [simp]: "other_events (fst (heartbeat e s)) = []"
  by (simp add: other_events_def heartbeat_def Let_def split: option.splits)

lemma heartbeat_same: "same_but_heartbeat s (snd (heartbeat e s))"
  by (simp add: same_but_heartbeat_def heartbeat_def Let_def split: option.splits)

lemma other_events_append [simp]: "other_events (xs @ ys) = other_events xs @ other_events ys"
  by (simp add: other_events_def)

lemma other_events_Cons:
  "other_events (ev # evs) = (if is_heartbeat_send ev then other_events evs else ev # other_events evs)"
  by (simp add: other_events_def)

lemma cleanup_same:
  assumes "same_but_heartbeat s s'"
  shows "fst (cleanup s' n) = fst (cleanup s n)" "same_but_heartbeat (snd (cleanup s n)) (snd (cleanup s' n))"
  using assms by (simp_all add: cleanup_def same_but_heartbeat_def)

lemma cleanup_other [simp]: "other_events (fst (cleanup s n)) = fst (cleanup s n)"
  by (simp add: cleanup_def other_events_def)

lemma connect_attempts_same:
  assumes "same_but_heartbeat s s'"
  shows "fst (connect_attempts c xs s') = fst (connect_attempts c xs s) \<and>
         snd (snd (connect_attempts c xs s')) = snd (snd (connect_attempts c xs s)) \<and>
         same_but_heartbeat (fst (snd (connect_attempts c xs s))) (fst (snd (connect_attempts c xs s')))"
  using assms
proof (induction xs arbitrary: s s')
  case Nil
  then show ?case by simp
next
  case (Cons i xs)
  let ?t = "s\<lparr>socket := Some (Sock False False)\<rparr>" and ?t' = "s'\<lparr>socket := Some (Sock False False)\<rparr>"
  from Cons.prems have "same_but_heartbeat ?t ?t'" by (simp add: same_but_heartbeat_def)
  from Cons.IH [OF this] Cons.prems show ?case
    by (cases "c i") (auto simp: same_but_heartbeat_def split: prod.splits)
qed

lemma connect_attempts_other:
  "connect_attempts c xs s = (evs, s', r) \<Longrightarrow> other_events evs = evs"
  by (induction xs arbitrary: s evs s' r) (auto simp: other_events_def split: conn_outcome.splits prod.splits)

lemma send_transcription_same:
  assumes "same_but_heartbeat s s'" "same_but_hb_ok e e'"
  shows "send_transcription e' s' t b = send_transcription e s t b"
  using assms(1) same_env_fields [OF assms(2)]
  by (simp add: send_transcription_def same_but_heartbeat_def split: option.splits)

lemma process_recording_same:
  assumes "same_but_heartbeat s s'" "same_but_hb_ok e e'"
  shows "process_recording e' s' n rc = process_recording e s n rc"
  using assms(1) same_env_fields [OF assms(2)] send_transcription_same [OF assms]
  by (simp add: process_recording_def same_but_heartbeat_def split: option.splits prod.splits)

lemma process_recording_other:
  "process_recording e s n rc = Some evs \<Longrightarrow> other_events evs = evs"
  using process_recording_all_chunk [of e s n rc evs]
  by (metis (mono_tags, lifting) other_events_def filter_id_conv filter_True in_chunk.simps(6) is_heartbeat_send.elims(2))

lemma after_sox_same:
  assumes "same_but_heartbeat s s'" "same_but_hb_ok e e'"
  shows "same_but_heartbeat (after_sox e s) (after_sox e' s')"
  using assms(1) same_env_fields [OF assms(2)]
  by (simp add: after_sox_def same_but_heartbeat_def)

lemma needs_reconnect_same:
  "same_but_heartbeat s s' \<Longrightarrow> needs_reconnect s' = needs_reconnect s"
  by (simp add: needs_reconnect_def same_but_heartbeat_def)

lemma connect_same:
  assumes "same_but_heartbeat s s'"
  shows "fst (connect_to_nodejs c s') = fst (connect_to_nodejs c s)"
    "snd (snd (connect_to_nodejs c s')) = snd (snd (connect_to_nodejs c s))"
    "same_but_heartbeat (fst (snd (connect_to_nodejs c s))) (fst (snd (connect_to_nodejs c s')))"
  using connect_attempts_same [OF assms, of c "[0..<max_retries]"]
  by (simp_all add: connect_to_nodejs_def)

lemma connect_other: "other_events (fst (connect_to_nodejs c s)) = fst (connect_to_nodejs c s)"
  using connect_attempts_other [of c "[0..<max_retries]" s]
  by (cases "connect_attempts c [0..<max_retries] s") (simp add: connect_to_nodejs_def)

lemma loop_body_same:
  assumes s: "same_but_heartbeat s s'" and e: "same_but_hb_ok e e'"
  shows "other_events (fst (loop_body e' s')) = other_events (fst (loop_body e s)) \<and>
         snd (snd (loop_body e' s')) = snd (snd (loop_body e s)) \<and>
         same_but_heartbeat (fst (snd (loop_body e s))) (fst (snd (loop_body e' s')))"
proof -
  let ?n = "segment_counter s"
  let ?t = "after_sox e s" and ?t' = "after_sox e' s'"
  have n: "segment_counter s' = ?n"
    using s by (simp add: same_but_heartbeat_def)
  have sox: "sox e' = sox e"
    using same_env_fields [OF e] by simp
  have conn: "conn e' = conn e"
    using same_env_fields [OF e] by simp
  have t: "same_but_heartbeat ?t ?t'"
    by (rule after_sox_same [OF s e])
  show ?thesis
  proof (cases e s rule: loop_body_cases)
    case timeout
    then have "subprocess_run 5 (sox e') = TimeoutExpired" by (simp add: sox)
    then have "loop_body e' s' = (Record ?n # fst (cleanup ?t' ?n), snd (cleanup ?t' ?n), Continue)"
      by (cases e' s' rule: loop_body_cases) (simp_all add: n)
    with timeout cleanup_same [OF t, of ?n] show ?thesis
      by (simp add: other_events_Cons)
  next
    case error
    let ?u = "snd (cleanup ?t ?n)" and ?u' = "snd (cleanup ?t' ?n)"
    have u: "same_but_heartbeat ?u ?u'"
      by (rule cleanup_same [OF t])
    from error have "subprocess_run 5 (sox e') = OtherError" by (simp add: sox)
    then have body': "loop_body e' s' =
       (if needs_reconnect ?u'
        then (case connect_to_nodejs (conn e') ?u' of
                (evs_k, s3, Returned b) \<Rightarrow>
                  (Record ?n # fst (cleanup ?t' ?n) @ evs_k @ [Sleep 2], s3, Continue)
              | (evs_k, s3, Raised) \<Rightarrow> (Record ?n # fst (cleanup ?t' ?n) @ evs_k, s3, ThreadDied))
        else (Record ?n # fst (cleanup ?t' ?n) @ [Sleep 2], ?u', Continue))"
      by (cases e' s' rule: loop_body_cases) (simp_all add: n)
    show ?thesis
    proof (cases "needs_reconnect ?u")
      case False
      with error(2) body' needs_reconnect_same [OF u] cleanup_same [OF t, of ?n] u show ?thesis
        by (simp add: other_events_Cons other_events_def [of "[Sleep 2]"])
    next
      case True
      obtain k1 k2 k3 where k: "connect_to_nodejs (conn e) ?u = (k1, k2, k3)"
        by (cases "connect_to_nodejs (conn e) ?u")
      obtain k1' k2' k3' where k': "connect_to_nodejs (conn e) ?u' = (k1', k2', k3')"
        by (cases "connect_to_nodejs (conn e) ?u'")
      from connect_same [OF u, of "conn e"] k k'
      have same: "k1' = k1" "k3' = k3" "same_but_heartbeat k2 k2'" by simp_all
      from connect_other [of "conn e" ?u] k have "other_events k1 = k1" by simp
      with True error(2) body' needs_reconnect_same [OF u] cleanup_same [OF t, of ?n] k k' same
      show ?thesis
        by (cases k3) (simp_all add: conn other_events_Cons other_events_def [of "[Sleep 2]"])
    qed
  next
    case (completed rc out err evs)
    from completed(1) have run': "subprocess_run 5 (sox e') = Completed rc out err"
      by (simp add: sox)
    have rec': "process_recording e' ?t' ?n rc = Some evs"
      using process_recording_same [OF t e] completed(2) by simp
    have "loop_body e' s' =
       (Record ?n # evs @ fst (heartbeat e' ?t') @ fst (cleanup (snd (heartbeat e' ?t')) ?n) @ [Sleep 0.2],
        snd (cleanup (snd (heartbeat e' ?t')) ?n), Continue)"
      using run' rec' by (cases e' s' rule: loop_body_cases) (simp_all add: n)
    moreover have h: "same_but_heartbeat (snd (heartbeat e ?t)) (snd (heartbeat e' ?t'))"
      using heartbeat_same [of ?t e] heartbeat_same [of ?t' e'] t
      by (simp add: same_but_heartbeat_def)
    ultimately show ?thesis
      using completed(3) cleanup_same [OF h, of ?n] process_recording_other [OF completed(2)]
      by (simp add: other_events_Cons other_events_def [of "[Sleep _]"])
  qed
qed

lemma other_tagged_pass:
  "other_tagged (pass_events e s) = map (Pair (segment_counter s)) (other_events (fst (loop_body e s)))"
proof -
  have "filter (\<lambda>x. \<not> is_heartbeat_send (snd x)) (map (Pair n) evs) =
        map (Pair n) (filter (\<lambda>ev. \<not> is_heartbeat_send ev) evs)" for n :: int and evs
    by (induction evs) auto
  then show ?thesis by (simp add: other_tagged_def pass_events_def other_events_def)
qed

lemma other_tagged_append [simp]: "other_tagged (xs @ ys) = other_tagged xs @ other_tagged ys"
  by (simp add: other_tagged_def)

lemma run_loop_same:
  assumes "same_but_heartbeat s s'" and "list_all2 same_but_hb_ok es es'"
  shows "other_tagged (fst (run_loop es' s')) = other_tagged (fst (run_loop es s)) \<and>
         snd (snd (run_loop es' s')) = snd (snd (run_loop es s)) \<and>
         same_but_heartbeat (fst (snd (run_loop es s))) (fst (snd (run_loop es' s')))"
  using assms(2,1)
proof (induction es es' arbitrary: s s' rule: list_all2_induct)
  case Nil
  then show ?case by simp
next
  case (Cons e es e' es')
  note body = loop_body_same [OF Cons.prems Cons.hyps(1)]
  from body have next_same: "same_but_heartbeat (fst (snd (loop_body e s))) (fst (snd (loop_body e' s')))"
    by simp
  have run: "running s' = running s" and n: "segment_counter s' = segment_counter s"
    using Cons.prems by (simp_all add: same_but_heartbeat_def)
  have pass: "other_tagged (pass_events e' s') = other_tagged (pass_events e s)"
    using body by (simp add: other_tagged_pass n)
  from Cons.IH [OF next_same] body pass Cons.prems show ?case
    unfolding run_loop_step
    by (simp add: run del: run_loop.simps)
qed

lemma all_heartbeats_fail_same: "list_all2 same_but_hb_ok es (all_heartbeats_fail es)"
  by (induction es) (simp_all add: all_heartbeats_fail_def same_but_hb_ok_def)

lemma same_refl: "same_but_heartbeat s s"
  by (simp add: same_but_heartbeat_def)

lemma cleanup_no_hb [simp]: "filter is_heartbeat_send (fst (cleanup s n)) = []"
  by (simp add: cleanup_def)

lemma heartbeat_all_hb [simp]: "filter is_heartbeat_send (fst (heartbeat e s)) = fst (heartbeat e s)"
  by (simp add: heartbeat_def Let_def split: option.splits)

lemma process_recording_no_hb:
  "process_recording e s n rc = Some evs \<Longrightarrow> filter is_heartbeat_send evs = []"
  by (auto simp: process_recording_def transcribe_audio_chunk_def send_transcription_def Let_def
      split: if_splits option.splits prod.splits run_result.splits)

lemma connect_attempts_no_hb:
  "connect_attempts c xs s = (evs, s', r) \<Longrightarrow> filter is_heartbeat_send evs = []"
  by (induction xs arbitrary: s evs s' r) (auto split: conn_outcome.splits prod.splits)

lemma connect_no_hb: "connect_to_nodejs c s = (evs, s', r) \<Longrightarrow> filter is_heartbeat_send evs = []"
  unfolding connect_to_nodejs_def by (rule connect_attempts_no_hb)

lemma loop_body_heartbeats:
  "filter is_heartbeat_send (fst (loop_body e s)) =
     (if recorder_returns e then fst (heartbeat e (after_sox e s)) else [])"
proof (cases e s rule: loop_body_cases)
  case timeout
  then show ?thesis by (simp add: recorder_returns_def)
next
  case error
  then show ?thesis
    by (auto simp: recorder_returns_def split: prod.splits outcome.splits dest: connect_no_hb)
next
  case (completed rc out err evs)
  then show ?thesis by (simp add: recorder_returns_def process_recording_no_hb)
qed

lemma loop_body_returns:
  assumes "recorder_returns e"
  shows "snd (loop_body e s) =
           (snd (cleanup (snd (heartbeat e (after_sox e s))) (segment_counter s)), Continue)"
  using assms by (cases e s rule: loop_body_cases) (simp_all add: recorder_returns_def)

lemma heartbeat_fields [simp]:
  "socket (snd (heartbeat e s)) = socket s" "running (snd (heartbeat e s)) = running s"
  by (simp_all add: heartbeat_def Let_def split: option.splits)

lemma cleanup_fields [simp]:
  "socket (snd (cleanup s n)) = socket s" "running (snd (cleanup s n)) = running s"
  "last_heartbeat (snd (cleanup s n)) = last_heartbeat s"
  by (simp_all add: cleanup_def)

lemma after_sox_fields [simp]:
  "socket (after_sox e s) = socket s" "running (after_sox e s) = running s"
  "last_heartbeat (after_sox e s) = last_heartbeat s"
  by (simp_all add: after_sox_def)

lemma heartbeat_last:
  "last_heartbeat (snd (heartbeat e s)) =
     (if list_ex is_sent_heartbeat (fst (heartbeat e s)) then now e else last_heartbeat s)"
  by (simp add: heartbeat_def Let_def split: option.splits)

lemma heartbeat_failed:
  "list_ex is_failed_heartbeat (fst (heartbeat e s)) \<Longrightarrow> \<not> list_ex is_sent_heartbeat (fst (heartbeat e s))"
  by (simp add: heartbeat_def Let_def split: option.splits if_splits)

lemma heartbeat_due:
  "socket s \<noteq> None \<Longrightarrow> 30 < now e - last_heartbeat s \<Longrightarrow>
   \<exists>p. fst (heartbeat e s) = [SendHeartbeat p (sock_send (the (socket s)) (hb_ok e))]"
  by (auto simp: heartbeat_def Let_def)

lemma connect_attempts_last:
  "connect_attempts c xs s = (evs, s', r) \<Longrightarrow> last_heartbeat s' = last_heartbeat s"
  by (induction xs arbitrary: s evs s' r) (auto split: conn_outcome.splits prod.splits)

lemma connect_last: "connect_to_nodejs c s = (evs, s', r) \<Longrightarrow> last_heartbeat s' = last_heartbeat s"
  unfolding connect_to_nodejs_def by (rule connect_attempts_last)

lemma sent_is_heartbeat: "is_sent_heartbeat ev \<Longrightarrow> is_heartbeat_send ev"
  by (cases ev) simp_all

lemma failed_is_heartbeat: "is_failed_heartbeat ev \<Longrightarrow> is_heartbeat_send ev"
  by (cases ev) simp_all

lemma list_ex_heartbeat_filter:
  assumes "\<And>ev. P ev \<Longrightarrow> is_heartbeat_send ev"
  shows "list_ex P evs = list_ex P (filter is_heartbeat_send evs)"
  using assms by (auto simp: list_ex_iff)

lemma loop_body_last:
  "last_heartbeat (fst (snd (loop_body e s))) =
     (if list_ex is_sent_heartbeat (fst (loop_body e s)) then now e else last_heartbeat s)"
proof (cases "recorder_returns e")
  case True
  have "list_ex is_sent_heartbeat (fst (loop_body e s)) =
        list_ex is_sent_heartbeat (fst (heartbeat e (after_sox e s)))"
    using list_ex_heartbeat_filter [of is_sent_heartbeat "fst (loop_body e s)"] True
    by (simp add: sent_is_heartbeat loop_body_heartbeats)
  with True show ?thesis
    by (simp add: loop_body_returns heartbeat_last)
next
  case False
  have none: "\<not> list_ex is_sent_heartbeat (fst (loop_body e s))"
    using list_ex_heartbeat_filter [of is_sent_heartbeat "fst (loop_body e s)"] False
    by (simp add: sent_is_heartbeat loop_body_heartbeats)
  have "last_heartbeat (fst (snd (loop_body e s))) = last_heartbeat s"
  proof (cases e s rule: loop_body_cases)
    case timeout
    then show ?thesis by simp
  next
    case error
    then show ?thesis
      by (auto split: prod.splits outcome.splits dest: connect_last)
  next
    case (completed rc out err evs)
    with False show ?thesis by (simp add: recorder_returns_def)
  qed
  with none show ?thesis by simp
qed

lemma loop_body_failed_heartbeat:
  assumes "list_ex is_failed_heartbeat (fst (loop_body e s))"
  shows "recorder_returns e" "\<not> list_ex is_sent_heartbeat (fst (loop_body e s))"
proof -
  from assms have f: "list_ex is_failed_heartbeat (filter is_heartbeat_send (fst (loop_body e s)))"
    using list_ex_heartbeat_filter [of is_failed_heartbeat "fst (loop_body e s)"]
    by (simp add: failed_is_heartbeat)
  then show r: "recorder_returns e"
    by (auto simp: loop_body_heartbeats split: if_splits)
  with f have "list_ex is_failed_heartbeat (fst (heartbeat e (after_sox e s)))"
    by (simp add: loop_body_heartbeats)
  then have "\<not> list_ex is_sent_heartbeat (fst (heartbeat e (after_sox e s)))"
    by (rule heartbeat_failed)
  with r show "\<not> list_ex is_sent_heartbeat (fst (loop_body e s))"
    using list_ex_heartbeat_filter [of is_sent_heartbeat "fst (loop_body e s)"]
    by (simp add: sent_is_heartbeat loop_body_heartbeats)
qed

text \<open>
  Claim C9. A pass in which the heartbeat write fails still ends normally: nothing is
  raised, the loop goes on, and the running flag and the socket are what they were.
  Over a whole run, making every heartbeat write fail changes nothing but the heartbeat
  events and the last-heartbeat time: the other events, among them every transcription
  message with its payload and outcome, the way the loop ends, and the rest of the
  streamer are the same.
\<close>

theorem heartbeat_failure_swallowed:
  "(list_ex is_failed_heartbeat (fst (loop_body e s)) \<longrightarrow>
      snd (snd (loop_body e s)) = Continue \<and>
      running (fst (snd (loop_body e s))) = running s \<and>
      socket (fst (snd (loop_body e s))) = socket s) \<and>
   other_tagged (fst (run_loop (all_heartbeats_fail es) s)) = other_tagged (fst (run_loop es s)) \<and>
   snd (snd (run_loop (all_heartbeats_fail es) s)) = snd (snd (run_loop es s)) \<and>
   same_but_heartbeat (fst (snd (run_loop es s))) (fst (snd (run_loop (all_heartbeats_fail es) s)))"
proof -
  have "snd (snd (loop_body e s)) = Continue \<and>
      running (fst (snd (loop_body e s))) = running s \<and>
      socket (fst (snd (loop_body e s))) = socket s"
    if "list_ex is_failed_heartbeat (fst (loop_body e s))"
    using loop_body_failed_heartbeat(1) [OF that] by (simp add: loop_body_returns)
  with run_loop_same [OF same_refl [of s] all_heartbeats_fail_same [of es]] show ?thesis
    by blast
qed

theorem heartbeat_failure_swallowed_witness:
  "list_ex is_failed_heartbeat (fst (loop_body late_env connected_streamer)) \<and>
   snd (snd (loop_body late_env connected_streamer)) = Continue \<and>
   deliveries (fst (run_loop [late_env, speech_env] connected_streamer)) = [0, 1] \<and>
   other_tagged (fst (run_loop (all_heartbeats_fail [late_env\<lparr>hb_ok := True\<rparr>, speech_env]) connected_streamer)) =
     other_tagged (fst (run_loop [late_env\<lparr>hb_ok := True\<rparr>, speech_env] connected_streamer))"
proof -
  have failed: "list_ex is_failed_heartbeat (fst (loop_body late_env connected_streamer))"
    by (simp add: connected_streamer_at late_pass)
  have sent: "deliveries (fst (run_loop [late_env, speech_env] connected_streamer)) = [0, 1]"
    by (simp add: connected_streamer_at speech_pass late_pass deliveries_def)
  from failed sent
    heartbeat_failure_swallowed [of late_env connected_streamer "[late_env\<lparr>hb_ok := True\<rparr>, speech_env]"]
  show ?thesis by simp
qed

subsection \<open>Heartbeat retries\<close>

lemma stalled_pass:
  "loop_body stalled_env
     \<lparr>socket = Some (Sock True True), running = True, temp_dir = Some [],
      segment_counter = k, last_heartbeat = 90\<rparr> =
     ([Record k, Unlink k],
      \<lparr>socket = Some (Sock True True), running = True, temp_dir = Some [],
       segment_counter = k + 1, last_heartbeat = 90\<rparr>, Continue)"
  by (simp add: pass_defs stalled_env_def late_env_def speech_env_def)

text \<open>
  Claim C10 says that once a heartbeat is overdue every later pass tries it again until
  one succeeds. The keepalive block is inside the \<open>try\<close> body, after the recorder
  call: a pass whose recorder run times out jumps to the handler and tries no
  heartbeat. Here the heartbeat is overdue and fails in pass 0, pass 1 times out in the
  recorder, and the next attempt is only in pass 2.
\<close>

theorem heartbeat_skipped_when_recorder_times_out:
  "30 < now stalled_env - last_heartbeat connected_streamer \<and>
   heartbeats (fst (run_loop [late_env, stalled_env, late_env] connected_streamer)) = [0, 2]"
  by (simp add: connected_streamer_at late_pass stalled_pass heartbeats_def)
     (simp add: stalled_env_def late_env_def)

lemma heartbeats_append [simp]: "heartbeats (xs @ ys) = heartbeats xs @ heartbeats ys"
  by (simp add: heartbeats_def)

lemma heartbeats_pass:
  "heartbeats (pass_events e s) =
     map (\<lambda>ev. segment_counter s) (filter is_heartbeat_send (fst (loop_body e s)))"
proof -
  have "filter (\<lambda>x. is_heartbeat_send (snd x)) (map (Pair n) evs) =
        map (Pair n) (filter is_heartbeat_send evs)" for n :: int and evs
    by (induction evs) auto
  then show ?thesis by (simp add: heartbeats_def pass_events_def comp_def)
qed

lemma overdue_pass:
  assumes "recorder_returns e" "socket s \<noteq> None" "30 < now e - last_heartbeat s" "\<not> hb_ok e"
  shows "heartbeats (pass_events e s) = [segment_counter s]"
    and "snd (snd (loop_body e s)) = Continue"
    and "last_heartbeat (fst (snd (loop_body e s))) = last_heartbeat s"
    and "socket (fst (snd (loop_body e s))) = socket s"
    and "running (fst (snd (loop_body e s))) = running s"
proof -
  from assms(2,3) obtain p where
    hb: "fst (heartbeat e (after_sox e s)) = [SendHeartbeat p (sock_send (the (socket s)) (hb_ok e))]"
    using heartbeat_due [of "after_sox e s" e] by auto
  with assms(4) have hb': "fst (heartbeat e (after_sox e s)) = [SendHeartbeat p False]"
    by (simp add: sock_send_def)
  with assms(1) show "heartbeats (pass_events e s) = [segment_counter s]"
    by (simp add: heartbeats_pass loop_body_heartbeats)
  from assms(1) show "snd (snd (loop_body e s)) = Continue"
    "socket (fst (snd (loop_body e s))) = socket s"
    "running (fst (snd (loop_body e s))) = running s"
    by (simp_all add: loop_body_returns)
  from assms(1) hb' show "last_heartbeat (fst (snd (loop_body e s))) = last_heartbeat s"
    by (simp add: loop_body_returns heartbeat_last)
qed

lemma overdue_run:
  assumes "running s" "socket s \<noteq> None"
    and "\<forall>e\<in>set es. recorder_returns e \<and> 30 < now e - last_heartbeat s \<and> \<not> hb_ok e"
  shows "heartbeats (fst (run_loop es s)) = map (\<lambda>i. segment_counter s + int i) [0..<length es] \<and>
         last_heartbeat (fst (snd (run_loop es s))) = last_heartbeat s"
  using assms
proof (induction es arbitrary: s)
  case Nil
  then show ?case by (simp add: heartbeats_def)
next
  case (Cons e es)
  let ?s1 = "fst (snd (loop_body e s))"
  from Cons.prems have e: "recorder_returns e" "30 < now e - last_heartbeat s" "\<not> hb_ok e"
    by simp_all
  note pass = overdue_pass [OF e(1) Cons.prems(2) e(2,3)]
  have "\<forall>e\<in>set es. recorder_returns e \<and> 30 < now e - last_heartbeat ?s1 \<and> \<not> hb_ok e"
    using Cons.prems(3) pass(3) by simp
  from Cons.IH [OF _ _ this] pass Cons.prems(1,2)
  have ih: "heartbeats (fst (run_loop es ?s1)) = map (\<lambda>i. segment_counter ?s1 + int i) [0..<length es]"
    "last_heartbeat (fst (snd (run_loop es ?s1))) = last_heartbeat s"
    by simp_all
  have "map (\<lambda>i. segment_counter s + int i) [0..<length (e # es)] =
        segment_counter s # map (\<lambda>i. segment_counter s + 1 + int i) [0..<length es]"
    by (simp add: map_upt_Suc add.assoc del: upt_Suc)
  with ih pass Cons.prems(1) show ?case
    unfolding run_loop_step
    by (simp add: loop_body_counter del: run_loop.simps upt_Suc)
qed

text \<open>
  Claim C10, amended. The last-heartbeat time changes in a pass only when a heartbeat
  write succeeded in it, and then becomes the time of that pass; after a failed write
  it is unchanged. So in a run where the heartbeat is overdue and every write fails,
  each pass whose recorder run returns tries the heartbeat again, one attempt per pass,
  with no further wait of 30 seconds.
\<close>

theorem heartbeat_retried_until_sent:
  "(last_heartbeat (fst (snd (loop_body e s))) \<noteq> last_heartbeat s \<longrightarrow>
      list_ex is_sent_heartbeat (fst (loop_body e s)) \<and>
      last_heartbeat (fst (snd (loop_body e s))) = now e) \<and>
   (list_ex is_failed_heartbeat (fst (loop_body e s)) \<longrightarrow>
      last_heartbeat (fst (snd (loop_body e s))) = last_heartbeat s) \<and>
   (running s \<and> socket s \<noteq> None \<and>
    (\<forall>e\<in>set es. recorder_returns e \<and> 30 < now e - last_heartbeat s \<and> \<not> hb_ok e) \<longrightarrow>
      heartbeats (fst (run_loop es s)) = map (\<lambda>i. segment_counter s + int i) [0..<length es] \<and>
      last_heartbeat (fst (snd (run_loop es s))) = last_heartbeat s)"
  using loop_body_last [of e s] loop_body_failed_heartbeat(2) [of e s] overdue_run [of s es]
  by (auto split: if_splits)

theorem heartbeat_retried_until_sent_witness:
  "list_ex is_failed_heartbeat (fst (loop_body late_env connected_streamer)) \<and>
   last_heartbeat (fst (snd (loop_body late_env connected_streamer))) = last_heartbeat connected_streamer \<and>
   last_heartbeat (fst (snd (loop_body (late_env\<lparr>hb_ok := True\<rparr>) connected_streamer))) \<noteq>
     last_heartbeat connected_streamer \<and>
   last_heartbeat (fst (snd (loop_body (late_env\<lparr>hb_ok := True\<rparr>) connected_streamer))) = 200 \<and>
   running connected_streamer \<and> socket connected_streamer \<noteq> None \<and>
   recorder_returns late_env \<and> 30 < now late_env - last_heartbeat connected_streamer \<and>
   \<not> hb_ok late_env \<and>
   heartbeats (fst (run_loop [late_env, late_env, late_env] connected_streamer)) = [0, 1, 2]"
proof -
  have failed: "list_ex is_failed_heartbeat (fst (loop_body late_env connected_streamer))"
    by (simp add: connected_streamer_at late_pass)
  have moved: "last_heartbeat (fst (snd (loop_body (late_env\<lparr>hb_ok := True\<rparr>) connected_streamer))) \<noteq>
     last_heartbeat connected_streamer"
    by (simp add: pass_defs late_env_def speech_env_def connected_streamer_def)
  have pre: "running connected_streamer" "socket connected_streamer \<noteq> None"
    "recorder_returns late_env" "30 < now late_env - last_heartbeat connected_streamer"
    "\<not> hb_ok late_env"
    by (simp_all add: connected_streamer_def late_env_def speech_env_def recorder_returns_def
        subprocess_run_def)
  have n: "now (late_env\<lparr>hb_ok := True\<rparr>) = 200"
    by (simp add: late_env_def)
  from failed moved pre n
    heartbeat_retried_until_sent [of late_env connected_streamer "[late_env, late_env, late_env]"]
    heartbeat_retried_until_sent [of "late_env\<lparr>hb_ok := True\<rparr>" connected_streamer "[]"]
  show ?thesis
    by (simp add: upt_rec connected_streamer_def)
qed

subsection \<open>Transcription failures\<close>

lemma slow_pass:
  "loop_body slow_env
     \<lparr>socket = Some (Sock True True), running = True, temp_dir = Some [],
      segment_counter = k, last_heartbeat = 90\<rparr> =
     ([Record k, Transcribe k, Unlink k, Sleep 0.2],
      \<lparr>socket = Some (Sock True True), running = True, temp_dir = Some [],
       segment_counter = k + 1, last_heartbeat = 90\<rparr>, Continue)"
  by (simp add: pass_defs slow_env_def slow_job_def whisper_script_def speech_env_def)

lemma hung_pass:
  "loop_body hung_env
     \<lparr>socket = Some (Sock True True), running = True, temp_dir = Some [],
      segment_counter = k, last_heartbeat = 90\<rparr> =
     ([Record k, Transcribe k, Pkill, Unlink k, Sleep 0.2],
      \<lparr>socket = Some (Sock True True), running = True, temp_dir = Some [],
       segment_counter = k + 1, last_heartbeat = 90\<rparr>, Continue)"
  by (simp add: pass_defs hung_env_def speech_env_def)

text \<open>
  Claim C4 says that the transcription returns a timeout value when the deadline fires
  and an engine-error value when the engine exits non-zero. \<open>transcribe_audio_chunk\<close>
  has one return type, \<open>str\<close>: a child killed by the 8-second timeout, a child that
  exits with code 1 and a diagnostic, and a child that heard nothing all yield the same
  empty string.
\<close>

theorem transcription_failures_all_return_empty_text:
  "snd (transcribe_audio_chunk (Proc 9 0 (lit ''hello world'' @ [10]) []) 0) = [] \<and>
   snd (transcribe_audio_chunk (Proc 1 1 [] (lit ''Error: no model'' @ [10])) 0) = [] \<and>
   snd (transcribe_audio_chunk (Proc 1 0 [10] []) 0) = []"
  by (simp add: transcribe_audio_chunk_def subprocess_run_def strip_def is_space_def)

lemma whisper_script_deadline: "5 < work_time j \<Longrightarrow> engine_fails (whisper_script j)"
  by (simp add: engine_fails_def whisper_script_def subprocess_run_def)

lemma outer_timeout:
  "8 < d \<Longrightarrow> transcribe_audio_chunk (Proc d rc out err) n = ([Transcribe n, Pkill], [])"
  by (simp add: transcribe_audio_chunk_def subprocess_run_def)

lemma engine_fails_empty: "engine_fails p \<Longrightarrow> snd (transcribe_audio_chunk p n) = []"
  by (auto simp: engine_fails_def transcribe_audio_chunk_def split: run_result.splits)

lemma engine_fails_no_send:
  assumes "engine_fails (engine e)"
  shows "\<not> list_ex is_transcription_send (fst (loop_body e s))"
proof
  assume "list_ex is_transcription_send (fst (loop_body e s))"
  then have "list_ex is_transcription_send (chunk_events e s)"
    by (simp add: list_ex_chunk send_in_chunk)
  then have "2 < length (strip (transcription_of e s))"
    by (rule chunk_events_send)
  with engine_fails_empty [OF assms, of "segment_counter s"] show False
    by (simp add: transcription_of_def strip_def)
qed

lemma chunk_events_recorder: "chunk_events e s \<noteq> [] \<Longrightarrow> recorder_returns e"
  by (auto simp: chunk_events_def recorder_returns_def split: run_result.splits)

lemma transcribe_pass_continues:
  assumes "list_ex is_transcribe (fst (loop_body e s))"
  shows "snd (snd (loop_body e s)) = Continue" "running (fst (snd (loop_body e s))) = running s"
proof -
  from assms have "list_ex is_transcribe (chunk_events e s)"
    by (simp add: list_ex_chunk transcribe_in_chunk)
  then have "chunk_events e s \<noteq> []" by auto
  then have r: "recorder_returns e" by (rule chunk_events_recorder)
  then show "snd (snd (loop_body e s)) = Continue" "running (fst (snd (loop_body e s))) = running s"
    by (simp_all add: loop_body_returns)
qed

text \<open>
  Claim C4, amended. The engine script runs under its own alarm of 5 seconds and the
  child process under a timeout of 8 seconds. Work that outlasts the alarm makes the
  engine fail (exit code 1, or the outer timeout if the exit is late); a child that
  outlasts 8 seconds is a failure followed by \<open>pkill\<close>. On either failure the
  method returns the empty string, the pass sends no transcription message, and every
  pass that started the engine ends normally, leaves the running flag alone and is
  followed by the next pass of the loop.
\<close>

theorem transcription_failure_is_empty_text:
  "(5 < work_time j \<longrightarrow> engine_fails (whisper_script j)) \<and>
   (8 < d \<longrightarrow> engine_fails (Proc d rc out err) \<and>
      transcribe_audio_chunk (Proc d rc out err) n = ([Transcribe n, Pkill], [])) \<and>
   (engine_fails p \<longrightarrow> snd (transcribe_audio_chunk p n) = []) \<and>
   (engine_fails (engine e) \<longrightarrow> \<not> list_ex is_transcription_send (fst (loop_body e s))) \<and>
   (list_ex is_transcribe (fst (loop_body e s)) \<longrightarrow>
      snd (snd (loop_body e s)) = Continue \<and>
      running (fst (snd (loop_body e s))) = running s \<and>
      (running s \<longrightarrow>
         fst (run_loop (e # es) s) =
           pass_events e s @ fst (run_loop es (fst (snd (loop_body e s))))))"
proof -
  have "engine_fails (Proc d rc out err)" if "8 < d"
    using that by (simp add: engine_fails_def subprocess_run_def)
  moreover have "fst (run_loop (e # es) s) =
           pass_events e s @ fst (run_loop es (fst (snd (loop_body e s))))"
    if "list_ex is_transcribe (fst (loop_body e s))" "running s"
    using that transcribe_pass_continues(1) [OF that(1)]
    by (simp add: run_loop_step del: run_loop.simps)
  ultimately show ?thesis
    using whisper_script_deadline [of j] outer_timeout [of d rc out err n]
      engine_fails_empty [of p n] engine_fails_no_send [of e s] transcribe_pass_continues [of e s]
    by blast
qed

theorem transcription_failure_is_empty_text_witness:
  "5 < work_time slow_job \<and> engine_fails (engine slow_env) \<and> engine_fails (engine hung_env) \<and>
   snd (transcribe_audio_chunk (engine slow_env) 0) = [] \<and>
   transcribe_audio_chunk (engine hung_env) 0 = ([Transcribe 0, Pkill], []) \<and>
   list_ex is_transcribe (fst (loop_body slow_env connected_streamer)) \<and>
   \<not> list_ex is_transcription_send (fst (loop_body slow_env connected_streamer)) \<and>
   snd (snd (loop_body slow_env connected_streamer)) = Continue \<and>
   running connected_streamer \<and>
   deliveries (fst (run_loop [slow_env, hung_env, speech_env] connected_streamer)) = [2]"
proof -
  have slow: "5 < work_time slow_job" "engine slow_env = whisper_script slow_job"
    by (simp_all add: slow_job_def slow_env_def)
  have hung: "engine hung_env = Proc 9 0 (lit ''hello world'' @ [10]) []"
    by (simp add: hung_env_def)
  have tr: "list_ex is_transcribe (fst (loop_body slow_env connected_streamer))"
    by (simp add: connected_streamer_at slow_pass)
  have run: "running connected_streamer"
    by (simp add: connected_streamer_def)
  have del: "deliveries (fst (run_loop [slow_env, hung_env, speech_env] connected_streamer)) = [2]"
    by (simp add: connected_streamer_at slow_pass hung_pass speech_pass deliveries_def)
  from slow hung tr run del
    transcription_failure_is_empty_text [of slow_job 9 0 "lit ''hello world'' @ [10]" "[]" 0
      "engine slow_env" slow_env connected_streamer "[]"]
  show ?thesis by simp
qed

subsection \<open>Send failures and reconnecting\<close>

lemma dropped_pass:
  "loop_body dropped_env
     \<lparr>socket = Some (Sock True True), running = True, temp_dir = Some [],
      segment_counter = k, last_heartbeat = 90\<rparr> =
     ([Record k, Transcribe k,
       SendTranscription (transcription_line (float_repr speech_env) (lit ''hello world'') 100.5 True) False,
       Unlink k, Sleep 0.2],
      \<lparr>socket = Some (Sock True True), running = True, temp_dir = Some [],
       segment_counter = k + 1, last_heartbeat = 90\<rparr>, Continue)"
  by (simp add: pass_defs dropped_env_def speech_env_def transcription_line_def)

lemma filter_connect_transcribe [simp]:
  "filter is_connect (fst (transcribe_audio_chunk p n)) = []"
  by (simp add: transcribe_audio_chunk_def split: run_result.splits)

lemma process_recording_no_connect:
  "process_recording e s n rc = Some evs \<Longrightarrow> filter is_connect evs = []"
  by (auto simp: process_recording_def send_transcription_def Let_def
      split: if_splits option.splits prod.splits)
     (metis filter_connect_transcribe fst_conv)+

lemma heartbeat_no_connect [simp]: "filter is_connect (fst (heartbeat e s)) = []"
  by (simp add: heartbeat_def Let_def split: option.splits)

lemma cleanup_no_connect [simp]: "filter is_connect (fst (cleanup s n)) = []"
  by (simp add: cleanup_def)

lemma loop_body_no_connect:
  assumes "\<not> needs_reconnect s"
  shows "filter is_connect (fst (loop_body e s)) = []"
    and "socket (fst (snd (loop_body e s))) = socket s"
    and "snd (snd (loop_body e s)) = Continue"
proof -
  have nr: "\<not> needs_reconnect (snd (cleanup (after_sox e s) (segment_counter s)))"
    using assms by (simp add: needs_reconnect_def)
  show "filter is_connect (fst (loop_body e s)) = []"
    using nr by (cases e s rule: loop_body_cases) (simp_all add: process_recording_no_connect)
  show "socket (fst (snd (loop_body e s))) = socket s"
    using nr by (cases e s rule: loop_body_cases) simp_all
  show "snd (snd (loop_body e s)) = Continue"
    using nr by (cases e s rule: loop_body_cases) simp_all
qed

lemma run_loop_no_connect:
  "\<not> needs_reconnect s \<Longrightarrow> \<not> list_ex (\<lambda>x. is_connect (snd x)) (fst (run_loop es s))"
proof (induction es arbitrary: s)
  case Nil
  then show ?case by simp
next
  case (Cons e es)
  note body = loop_body_no_connect [OF Cons.prems, of e]
  have "\<not> needs_reconnect (fst (snd (loop_body e s)))"
    using Cons.prems body(2) by (simp add: needs_reconnect_def)
  from Cons.IH [OF this] have rest: "\<not> list_ex (\<lambda>x. is_connect (snd x)) (fst (run_loop es (fst (snd (loop_body e s)))))" .
  have "\<not> list_ex (\<lambda>x. is_connect (snd x)) (pass_events e s)"
    using body(1) by (auto simp: pass_events_def list_ex_iff filter_empty_conv)
  with rest show ?case
    unfolding run_loop_step by (simp del: run_loop.simps)
qed

text \<open>
  Claim C1 asks that a failed send of a transcription message is followed by a connect
  attempt before the next delivery. The code does not do that. \<open>send_transcription\<close>
  catches the exception of \<open>socket.send\<close> and returns \<open>False\<close>, and the loop drops
  that result; the reconnect sits in the handler for exceptions of the \<open>try\<close> body and
  runs only when \<open>self.socket\<close> is \<open>None\<close> or closed. So from a streamer whose socket
  object is open, no run of the loop ever attempts a connect, whatever the sends do. The
  sample run has a failed send for segment 0 and the next send, for segment 1, with no
  connect attempt in between.
\<close>

theorem send_failure_never_reconnects:
  "\<not> needs_reconnect s \<longrightarrow> \<not> list_ex (\<lambda>x. is_connect (snd x)) (fst (run_loop es s))"
  using run_loop_no_connect by blast

theorem send_failure_never_reconnects_witness:
  "map snd (fst (run_loop [dropped_env, speech_env] connected_streamer)) =
     [Record 0, Transcribe 0,
      SendTranscription (transcription_line (float_repr speech_env) (lit ''hello world'') 100.5 True) False,
      Unlink 0, Sleep 0.2,
      Record 1, Transcribe 1,
      SendTranscription (transcription_line (float_repr speech_env) (lit ''hello world'') 100.5 True) True,
      Unlink 1, Sleep 0.2] \<and>
   \<not> needs_reconnect connected_streamer \<and>
   \<not> list_ex (\<lambda>x. is_connect (snd x)) (fst (run_loop [dropped_env, speech_env] connected_streamer))"
proof -
  have open_socket: "\<not> needs_reconnect connected_streamer"
    by (simp add: needs_reconnect_def connected_streamer_def)
  have trace: "map snd (fst (run_loop [dropped_env, speech_env] connected_streamer)) =
     [Record 0, Transcribe 0,
      SendTranscription (transcription_line (float_repr speech_env) (lit ''hello world'') 100.5 True) False,
      Unlink 0, Sleep 0.2,
      Record 1, Transcribe 1,
      SendTranscription (transcription_line (float_repr speech_env) (lit ''hello world'') 100.5 True) True,
      Unlink 1, Sleep 0.2]"
    by (simp add: connected_streamer_at dropped_pass speech_pass transcription_line_def)
  from open_socket trace
    send_failure_never_reconnects [of connected_streamer "[dropped_env, speech_env]"]
  show ?thesis by blast
qed

subsection \<open>The wire format of a transcription\<close>

lemma of_char_char_of: "n < 256 \<Longrightarrow> (of_char (char_of n) :: nat) = n"
  by simp

lemma unhex_hex_digit: "d < 16 \<Longrightarrow> unhex (hex_digit d) = Some d"
  by (simp add: unhex_def hex_digit_def Let_def)

lemma hex4_value:
  assumes "v < 65536"
  shows "4096 * (v div 4096) + 256 * (v div 256 mod 16) + 16 * (v div 16 mod 16) + v mod 16 = (v::nat)"
proof -
  have f1: "v = 16 * (v div 16) + v mod 16"
    by simp
  have "v div 16 div 16 = v div 256" "v div 256 div 16 = v div 4096"
    by (simp_all add: div_mult2_eq [symmetric])
  with div_mult_mod_eq [of "v div 16" 16] div_mult_mod_eq [of "v div 256" 16]
  have f2: "v div 16 = 16 * (v div 256) + v div 16 mod 16"
    and f3: "v div 256 = 16 * (v div 4096) + v div 256 mod 16"
    by simp_all
  from f1 f2 f3 show ?thesis by linarith
qed

lemma hex4_top: "v < 65536 \<Longrightarrow> v div 4096 mod 16 = (v::nat) div 4096"
  by simp

lemma read_units_hex4:
  assumes "v < 65536"
  shows "read_units (CHR 0x5C # CHR ''u'' # hex4 v @ rest) =
           map_option (apfst ((#) v)) (read_units rest)"
proof -
  have "read_units (CHR 0x5C # CHR ''u'' # hex4 v @ rest) =
        map_option (apfst ((#) (4096 * (v div 4096 mod 16) + 256 * (v div 256 mod 16) +
          16 * (v div 16 mod 16) + v mod 16))) (read_units rest)"
    by (simp add: hex4_def unhex_hex_digit del: mod_div_trivial)
  then show ?thesis
    by (simp only: hex4_top [OF assms] hex4_value [OF assms])
qed

lemma append_single: "(@) [n] = (#) n"
  by (rule ext) simp

lemma char_of_not_special:
  assumes "32 \<le> n" "n \<le> 126" "n \<noteq> 34" "n \<noteq> 92"
  shows "char_of n \<noteq> CHR 0x22" "char_of n \<noteq> CHR 0x5C" "(of_char (char_of n) :: nat) = n"
proof -
  from assms have n: "(of_char (char_of n) :: nat) = n" by simp
  then show "(of_char (char_of n) :: nat) = n" .
  show "char_of n \<noteq> CHR 0x22"
  proof
    assume "char_of n = CHR 0x22"
    then have "(of_char (char_of n) :: nat) = of_char (CHR 0x22)" by simp
    with n assms show False by simp
  qed
  show "char_of n \<noteq> CHR 0x5C"
  proof
    assume "char_of n = CHR 0x5C"
    then have "(of_char (char_of n) :: nat) = of_char (CHR 0x5C)" by simp
    with n assms show False by simp
  qed
qed

lemma surrogate_bounds:
  assumes "65536 \<le> n" "n < 1114112"
  shows "55296 + (n - 65536) div 1024 mod 1024 < (65536::nat)"
    and "56320 + (n - 65536) mod 1024 < (65536::nat)"
  using assms by simp_all

lemma read_units_escape:
  assumes "n < 1114112"
  shows "read_units (json_escape_char n @ rest) =
           map_option (apfst ((@) (utf16 n))) (read_units rest)"
proof -
  consider "n = 92" | "n = 34" | "n = 8" | "n = 12" | "n = 10" | "n = 13" | "n = 9"
    | "32 \<le> n" "n \<le> 126" "n \<noteq> 34" "n \<noteq> 92"
    | "n < 32" "n \<noteq> 8" "n \<noteq> 12" "n \<noteq> 10" "n \<noteq> 13" "n \<noteq> 9"
    | "126 < n" "n < 65536"
    | "65536 \<le> n"
    by linarith
  then show ?thesis
  proof cases
    case 8
    with char_of_not_special [OF 8] show ?thesis
      by (simp add: json_escape_char_def utf16_def append_single)
  next
    case 9
    then have "json_escape_char n = CHR 0x5C # CHR ''u'' # hex4 n"
      by (simp add: json_escape_char_def)
    with 9 read_units_hex4 [of n rest] show ?thesis
      by (simp add: utf16_def append_single del: read_units.simps)
  next
    case 10
    then have "json_escape_char n = CHR 0x5C # CHR ''u'' # hex4 n"
      by (simp add: json_escape_char_def)
    with 10 read_units_hex4 [of n rest] show ?thesis
      by (simp add: utf16_def append_single del: read_units.simps)
  next
    case 11
    let ?hi = "55296 + (n - 65536) div 1024 mod 1024" and ?lo = "56320 + (n - 65536) mod 1024"
    from 11 have "json_escape_char n =
        (CHR 0x5C # CHR ''u'' # hex4 ?hi) @ (CHR 0x5C # CHR ''u'' # hex4 ?lo)"
      by (simp add: json_escape_char_def Let_def)
    then have "read_units (json_escape_char n @ rest) =
        read_units (CHR 0x5C # CHR ''u'' # hex4 ?hi @ (CHR 0x5C # CHR ''u'' # hex4 ?lo @ rest))"
      by simp
    also have "\<dots> = map_option (apfst ((#) ?hi)) (read_units (CHR 0x5C # CHR ''u'' # hex4 ?lo @ rest))"
      using surrogate_bounds(1) [OF 11 assms] by (rule read_units_hex4)
    also have "read_units (CHR 0x5C # CHR ''u'' # hex4 ?lo @ rest) =
        map_option (apfst ((#) ?lo)) (read_units rest)"
      using surrogate_bounds(2) [OF 11 assms] by (rule read_units_hex4)
    finally show ?thesis
      using 11 by (simp add: utf16_def option.map_comp comp_def apfst_def map_prod_def split_def)
  qed (simp_all add: json_escape_char_def utf16_def unescape_def append_single)
qed

lemma read_units_body:
  assumes "list_all (\<lambda>n. n < 1114112) text"
  shows "read_units (concat (map json_escape_char text) @ CHR 0x22 # rest) =
           Some (concat (map utf16 text), rest)"
  using assms
proof (induction "text")
  case Nil
  then show ?case by simp
next
  case (Cons n ns)
  then show ?case
    by (simp add: read_units_escape)
qed

lemma combine_not_high:
  "\<not> (55296 \<le> u \<and> u < 56320) \<Longrightarrow> combine_surrogates (u # us) = u # combine_surrogates us"
  by (cases us) auto

lemma combine_utf16:
  assumes "scalar n"
  shows "combine_surrogates (utf16 n @ us) = n # combine_surrogates us"
proof (cases "n < 65536")
  case True
  with assms have "\<not> (55296 \<le> n \<and> n < 56320)" by (auto simp: scalar_def)
  with True show ?thesis by (simp add: utf16_def combine_not_high)
next
  case False
  let ?v = "n - 65536"
  from False assms have v: "?v < 1048576" by (simp add: scalar_def)
  then have "?v div 1024 < 1024" by simp
  then have "?v div 1024 mod 1024 = ?v div 1024" by simp
  moreover have "?v div 1024 * 1024 + ?v mod 1024 = ?v" by simp
  ultimately show ?thesis
    using False by (simp add: utf16_def)
qed

lemma combine_text:
  "list_all scalar text \<Longrightarrow> combine_surrogates (concat (map utf16 text)) = text"
  by (induction "text") (simp_all add: combine_utf16)

lemma read_str_json_string:
  assumes "list_all scalar text"
  shows "read_str (json_string text @ rest) = Some (text, rest)"
proof -
  from assms have "list_all (\<lambda>n. n < 1114112) text"
    by (simp add: list_all_iff scalar_def)
  then show ?thesis
    using combine_text [OF assms]
    by (simp add: read_str_def json_string_def read_units_body)
qed

lemma read_lit_append: "read_lit p (p @ r) = Some r"
  by (simp add: read_lit_def)

lemma lit_scalar: "list_all scalar (lit k)"
proof -
  have "(of_char c :: nat) < 256" for c
    by (metis mod_less_divisor of_char_mod_256 zero_less_numeral)
  then have "scalar (of_char c)" for c
    using order_less_trans [of "of_char c :: nat" 256 55296] by (simp add: scalar_def)
  then show ?thesis
    by (simp add: lit_def list_all_iff)
qed

lemma read_key_cons: "read_key k (json_string (lit k) @ CHR '':'' # CHR '' '' # r) = Some r"
  using read_str_json_string [OF lit_scalar, of k "CHR '':'' # CHR '' '' # r"]
  by (simp add: read_key_def read_lit_def)

lemma read_num_append:
  assumes "is_json_number tok" and "\<not> number_char c"
  shows "read_num (tok @ c # r) = Some (tok, c # r)"
proof -
  from assms(1) have all: "\<And>x. x \<in> set tok \<Longrightarrow> number_char x"
    by (simp add: is_json_number_def list_all_iff)
  have "takeWhile number_char (tok @ c # r) = tok" "dropWhile number_char (tok @ c # r) = c # r"
    using all assms(2) by (simp_all add: takeWhile_append2 dropWhile_append2)
  with assms(1) show ?thesis
    by (simp add: read_num_def)
qed

lemma comma_not_number: "\<not> number_char (CHR '','')"
  by (simp add: number_char_def is_digit_def)

lemma read_transcription_dumps:
  assumes "is_json_number (fr t)" and "list_all scalar text"
  shows "read_transcription (json_dumps fr (transcription_message text t is_final) @ [CHR 0x0A]) =
           Some (text, fr t, is_final)"
  by (cases is_final)
     (simp_all add: json_dumps_def transcription_message_def json_item_def read_transcription_def
       read_lit_def read_key_cons read_str_json_string lit_scalar assms
       read_num_append comma_not_number read_bool_def)

lemma json_escape_plain: "plain c \<Longrightarrow> json_escape_char (of_char c) = [c]"
proof -
  assume p: "plain c"
  then have r: "32 \<le> (of_char c :: nat)" "(of_char c :: nat) \<le> 126"
    by (simp_all add: plain_def printable_def)
  have "(of_char c :: nat) \<noteq> 34"
  proof
    assume "(of_char c :: nat) = 34"
    then have "char_of (of_char c :: nat) = char_of (34 :: nat)" by simp
    then have "c = CHR 0x22" by (simp add: char_of_eq_iff)
    with p show False by (simp add: plain_def)
  qed
  moreover have "(of_char c :: nat) \<noteq> 92"
  proof
    assume "(of_char c :: nat) = 92"
    then have "char_of (of_char c :: nat) = char_of (92 :: nat)" by simp
    then have "c = CHR 0x5C" by (simp add: char_of_eq_iff)
    with p show False by (simp add: plain_def)
  qed
  ultimately show ?thesis
    using r by (simp add: json_escape_char_def)
qed

lemma json_string_lit:
  "list_all plain k \<Longrightarrow> json_string (lit k) = CHR 0x22 # k @ [CHR 0x22]"
proof -
  assume "list_all plain k"
  then have "concat (map json_escape_char (lit k)) = k"
    by (induction k) (simp_all add: lit_def json_escape_plain)
  then show ?thesis by (simp add: json_string_def)
qed

lemma printable_char_of: "32 \<le> k \<Longrightarrow> k \<le> 126 \<Longrightarrow> printable (char_of (k::nat))"
  by (simp add: printable_def)

lemma hex_digit_printable: "d < 16 \<Longrightarrow> printable (hex_digit d)"
  by (simp add: hex_digit_def printable_char_of)

lemma hex4_printable: "list_all printable (hex4 n)"
  by (simp add: hex4_def hex_digit_printable)

lemma json_escape_char_printable: "list_all printable (json_escape_char n)"
proof -
  have esc: "printable (CHR 0x5C)" "printable (CHR 0x22)" "printable (CHR ''b'')"
    "printable (CHR ''f'')" "printable (CHR ''n'')" "printable (CHR ''r'')"
    "printable (CHR ''t'')" "printable (CHR ''u'')"
    by (simp_all add: printable_def)
  show ?thesis
    by (simp add: json_escape_char_def Let_def esc hex4_printable printable_char_of)
qed

lemma json_string_printable: "list_all printable (json_string s)"
proof -
  have "list_all printable (concat (map json_escape_char s))"
    by (induction s) (simp_all add: json_escape_char_printable)
  then show ?thesis
    by (simp add: json_string_def) (simp add: printable_def)
qed

lemma number_char_printable: "number_char c \<Longrightarrow> printable c"
  by (auto simp: number_char_def is_digit_def printable_def)

lemma json_number_printable: "is_json_number s \<Longrightarrow> list_all printable s"
  by (simp add: is_json_number_def list_all_iff number_char_printable)

lemma encode_utf8_printable: "list_all printable s \<Longrightarrow> encode_utf8 s = s"
  by (induction s) (simp_all add: encode_utf8_def encode_utf8_char_def printable_def)

lemma transcription_shape:
  \<open>json_dumps fr (transcription_message text t True) =
     ''{"type": "transcription", "text": '' @ json_string text @ '', "timestamp": '' @ fr t @
     '', "isFinal": true}''\<close>
  by (simp add: json_dumps_def transcription_message_def json_item_def json_string_lit
      plain_def printable_def)

lemma transcription_printable:
  assumes "list_all printable (fr t)"
  shows "list_all printable (json_dumps fr (transcription_message text t is_final))"
  using assms json_string_printable
  by (cases is_final)
     (simp_all add: json_dumps_def transcription_message_def json_item_def, simp_all add: printable_def)

lemma transcription_line_ascii:
  assumes "list_all printable (fr t)"
  shows "transcription_line fr text t is_final =
           json_dumps fr (transcription_message text t is_final) @ [CHR 0x0A]"
proof -
  have "encode_utf8 (xs @ [CHR 0x0A]) = encode_utf8 xs @ [CHR 0x0A]" for xs
    by (simp add: encode_utf8_def encode_utf8_char_def)
  with transcription_printable [of fr t "text" is_final] assms show ?thesis
    by (simp add: transcription_line_def encode_utf8_printable)
qed

lemma send_transcription_payload:
  "SendTranscription p ok \<in> set (fst (send_transcription e s text is_final)) \<Longrightarrow>
   p = transcription_line (float_repr e) text (timestamp e) is_final"
  by (auto simp: send_transcription_def Let_def transcription_line_def split: option.splits)

lemma transcribe_no_send_event:
  "SendTranscription p ok \<notin> set (fst (transcribe_audio_chunk q n))"
  by (simp add: transcribe_audio_chunk_def split: run_result.splits)

lemma chunk_events_payload:
  assumes "SendTranscription p ok \<in> set (chunk_events e s)"
  shows "p = transcription_line (float_repr e) (transcription_of e s) (timestamp e) True"
proof -
  obtain evs t where tr: "transcribe_audio_chunk (engine e) (segment_counter s) = (evs, t)"
    by (cases "transcribe_audio_chunk (engine e) (segment_counter s)")
  have no: "SendTranscription p ok \<notin> set evs"
    using transcribe_no_send_event [of p ok "engine e" "segment_counter s"] tr by simp
  have t: "transcription_of e s = t"
    using tr by (simp add: transcription_of_def)
  from assms tr no have "SendTranscription p ok \<in> set (fst (send_transcription e (after_sox e s) t True))"
    by (auto simp: chunk_events_def process_recording_def
        split: run_result.splits if_splits option.splits)
  then show ?thesis
    using send_transcription_payload t by blast
qed

lemma loop_body_payload:
  assumes "SendTranscription p ok \<in> set (fst (loop_body e s))"
  shows "p = transcription_line (float_repr e) (transcription_of e s) (timestamp e) True"
proof -
  from assms have "SendTranscription p ok \<in> set (filter in_chunk (fst (loop_body e s)))"
    by simp
  then show ?thesis
    by (simp only: loop_body_chunk) (rule chunk_events_payload)
qed

text \<open>
  Claim C7. Every transcription message that a pass hands to \<open>socket.send\<close> is the
  line built from the text returned by the transcription, the time stamp of the pass
  and \<open>isFinal = True\<close>. Such a line is the object with the keys \<open>type\<close>
  (\<open>transcription\<close>), \<open>text\<close>, \<open>timestamp\<close> and \<open>isFinal\<close> (\<open>true\<close>) in this
  order. When the time stamp is rendered as a JSON number, as Python renders a finite
  float, and the text consists of Unicode scalar values, as a decoded \<open>str\<close> does, the
  line reads back as JSON: a reader of records of this shape returns the text, the
  number as rendered and the flag. The object is printable ASCII throughout, so its
  UTF-8 encoding is the same bytes, and it is followed by one newline, which is not
  among its own characters.
\<close>

theorem transcription_wire_format:
  \<open>(SendTranscription p ok \<in> set (fst (loop_body e s)) \<longrightarrow>
      p = transcription_line (float_repr e) (transcription_of e s) (timestamp e) True) \<and>
   json_dumps fr (transcription_message text t True) =
     ''{"type": "transcription", "text": '' @ json_string text @ '', "timestamp": '' @ fr t @
     '', "isFinal": true}'' \<and>
   (is_json_number (fr t) \<and> list_all scalar text \<longrightarrow>
      read_transcription (transcription_line fr text t is_final) = Some (text, fr t, is_final) \<and>
      transcription_line fr text t is_final =
        json_dumps fr (transcription_message text t is_final) @ [CHR 0x0A] \<and>
      list_all printable (json_dumps fr (transcription_message text t is_final)) \<and>
      \<not> printable (CHR 0x0A))\<close>
proof -
  have "read_transcription (transcription_line fr text t is_final) = Some (text, fr t, is_final) \<and>
      transcription_line fr text t is_final =
        json_dumps fr (transcription_message text t is_final) @ [CHR 0x0A] \<and>
      list_all printable (json_dumps fr (transcription_message text t is_final))"
    if num: "is_json_number (fr t)" and sc: "list_all scalar text"
  proof -
    note pr = json_number_printable [OF num]
    from pr num sc transcription_line_ascii [of fr t "text" is_final]
      read_transcription_dumps [of fr t "text" is_final]
      transcription_printable [of fr t "text" is_final]
    show ?thesis by simp
  qed
  moreover have "\<not> printable (CHR 0x0A)"
    by (simp add: printable_def)
  ultimately show ?thesis
    using loop_body_payload [of p ok e s] transcription_shape [of fr "text" t]
    by blast
qed

theorem transcription_wire_format_witness:
  \<open>SendTranscription
     (''{"type": "transcription", "text": "hello world", "timestamp": 100.5, "isFinal": true}'' @
      [CHR 0x0A]) True
   \<in> set (fst (loop_body speech_env connected_streamer)) \<and>
   is_json_number (float_repr speech_env 100.5) \<and> list_all scalar (lit ''hello world'') \<and>
   transcription_line (float_repr speech_env) (transcription_of speech_env connected_streamer)
     (timestamp speech_env) True =
     ''{"type": "transcription", "text": "hello world", "timestamp": 100.5, "isFinal": true}'' @
     [CHR 0x0A] \<and>
   read_transcription
     (''{"type": "transcription", "text": "hello world", "timestamp": 100.5, "isFinal": true}'' @
      [CHR 0x0A]) = Some (lit ''hello world'', ''100.5'', True) \<and>
   json_string [34, 233, 128512] = [CHR 0x22, CHR 0x5C, CHR 0x22] @ [CHR 0x5C] @ ''u00e9'' @
     [CHR 0x5C] @ ''ud83d'' @ [CHR 0x5C] @ ''ude00'' @ [CHR 0x22] \<and>
   read_str (json_string [34, 233, 128512]) = Some ([34, 233, 128512], [])\<close>
proof -
  have num: "is_json_number (float_repr speech_env 100.5)"
    by (simp add: speech_env_def is_json_number_def number_char_def is_digit_def json_int_def
        json_frac_exp_def json_exp_def)
  have fr: "float_repr speech_env 100.5 = ''100.5''"
    by (simp add: speech_env_def)
  have sc: "list_all scalar (lit ''hello world'')"
    by (rule lit_scalar)
  have quoted: \<open>json_string (lit ''hello world'') = ''"hello world"''\<close>
    by (simp add: json_string_lit plain_def printable_def)
  have sent: "SendTranscription (transcription_line (float_repr speech_env) (lit ''hello world'') 100.5 True) True
        \<in> set (fst (loop_body speech_env connected_streamer))"
    by (simp add: connected_streamer_at speech_pass transcription_line_def)
  have esc: \<open>json_string [34, 233, 128512] = [CHR 0x22, CHR 0x5C, CHR 0x22] @ [CHR 0x5C] @ ''u00e9'' @
     [CHR 0x5C] @ ''ud83d'' @ [CHR 0x5C] @ ''ude00'' @ [CHR 0x22]\<close>
    by (simp add: json_string_def json_escape_char_def hex4_def hex_digit_def Let_def char_of_eq_iff)
  have rd: "read_str (json_string [34, 233, 128512] @ []) = Some ([34, 233, 128512], [])"
    by (rule read_str_json_string) (simp add: scalar_def)
  note wf = transcription_wire_format [of
        "transcription_line (float_repr speech_env) (lit ''hello world'') 100.5 True" True
        speech_env connected_streamer "float_repr speech_env" "lit ''hello world''" "100.5" True]
  note built = mp [OF wf [THEN conjunct1] sent]
  note shape = wf [THEN conjunct2, THEN conjunct1]
  note rest = mp [OF wf [THEN conjunct2, THEN conjunct2] conjI [OF num sc]]
  note read_back = rest [THEN conjunct1]
  note framed = rest [THEN conjunct2, THEN conjunct1]
  have sent_line: \<open>transcription_line (float_repr speech_env) (lit ''hello world'') 100.5 True =
    ''{"type": "transcription", "text": "hello world", "timestamp": 100.5, "isFinal": true}'' @ [CHR 0x0A]\<close>
    by (simp only: framed shape quoted fr append.simps)
  have sent_literal: \<open>SendTranscription
     (''{"type": "transcription", "text": "hello world", "timestamp": 100.5, "isFinal": true}'' @
      [CHR 0x0A]) True \<in> set (fst (loop_body speech_env connected_streamer))\<close>
    using sent unfolding sent_line .
  have read_literal: \<open>read_transcription
     (''{"type": "transcription", "text": "hello world", "timestamp": 100.5, "isFinal": true}'' @
      [CHR 0x0A]) = Some (lit ''hello world'', ''100.5'', True)\<close>
    using read_back unfolding sent_line fr .
  have built_literal: \<open>transcription_line (float_repr speech_env)
       (transcription_of speech_env connected_streamer) (timestamp speech_env) True =
     ''{"type": "transcription", "text": "hello world", "timestamp": 100.5, "isFinal": true}'' @
     [CHR 0x0A]\<close>
    using built unfolding sent_line by (rule sym)
  from sent_literal num sc built_literal read_literal esc rd show ?thesis
    by simp
qed

end
